theory Spec2Isabelle
  imports Main "HOL-Library.Multiset"
begin

section \<open>Annotation hierarchy: rows and flat records\<close>

text \<open>
  The resolvers of \<^verbatim>\<open>AnnotationType\<close> in \<^verbatim>\<open>config/graphql/graphene_types.py\<close> read rows
  of the annotation table through \<^verbatim>\<open>.values("id", "parent_id", "raw_text")\<close>. Such a row is
  a dictionary with exactly these three keys. The primary key is an integer, the parent
  reference is an integer or \<^verbatim>\<open>None\<close>. The key \<^verbatim>\<open>id\<close> is called \<open>node_id\<close> here, since
  \<open>id\<close> is the identity function of HOL.
\<close>

record RawNode =
  node_id :: int
  parent_id :: "int option"
  raw_text :: string

text \<open>
  The dictionary that \<^verbatim>\<open>build_flat_tree\<close> emits for every row, with its keys \<^verbatim>\<open>id\<close>,
  \<^verbatim>\<open>raw_text\<close> and \<^verbatim>\<open>children\<close>.
\<close>

record FlatNode =
  flat_id :: string
  flat_raw_text :: string
  flat_children :: "string list"

text \<open>
  The only exception the three resolvers can raise on their own: following \<^verbatim>\<open>node.parent\<close>
  when the row the foreign key names is gone.
\<close>

datatype error = DoesNotExist

section \<open>The identifier codec\<close>

text \<open>
  Modelled from the spec: the identifier codec. The source imports \<^verbatim>\<open>to_global_id\<close> and
  \<^verbatim>\<open>from_global_id\<close> from the package \<^verbatim>\<open>graphql_relay\<close>, whose code is not in the
  repository. The spec describes \<open>encode\<close> as a deterministic map from a type tag and an
  internal identifier to an opaque string, and \<open>decode\<close> as its inverse, failing on a string
  that does not match the format. The format taken here is the one of the package: the
  Base64 text of the tag, a colon and the identifier in decimal; decoding splits the Base64
  payload at its first colon and returns the tag and the identifier as text.
\<close>

definition b64_alphabet :: string where
  "b64_alphabet = ''ABCDEFGHIJKLMNOPQRSTUVWXYZabcdefghijklmnopqrstuvwxyz0123456789+/''"

definition b64_char :: "nat \<Rightarrow> char" where
  "b64_char n = b64_alphabet ! n"

fun index_of :: "'a list \<Rightarrow> 'a \<Rightarrow> nat option" where
  "index_of [] c = None"
| "index_of (x # xs) c = (if x = c then Some 0 else map_option Suc (index_of xs c))"

definition b64_index :: "char \<Rightarrow> nat option" where
  "b64_index c = index_of b64_alphabet c"

text \<open>Three octets become four sextets; a last group of one or two octets is padded.\<close>

fun b64encode :: "string \<Rightarrow> string" where
  "b64encode [] = []"
| "b64encode [a] =
     [b64_char (of_char a div 4), b64_char (of_char a mod 4 * 16), CHR ''='', CHR ''='']"
| "b64encode [a, b] =
     [b64_char (of_char a div 4), b64_char (of_char a mod 4 * 16 + of_char b div 16),
      b64_char (of_char b mod 16 * 4), CHR ''='']"
| "b64encode (a # b # c # rest) =
     [b64_char (of_char a div 4), b64_char (of_char a mod 4 * 16 + of_char b div 16),
      b64_char (of_char b mod 16 * 4 + of_char c div 64), b64_char (of_char c mod 64)]
     @ b64encode rest"

text \<open>
  Decoding accepts groups of four characters of the alphabet, the last one possibly padded,
  and fails (\<open>None\<close>) on anything else.
\<close>

fun b64decode :: "string \<Rightarrow> string option" where
  "b64decode [] = Some []"
| "b64decode (w # x # y # z # rest) =
     (case (b64_index w, b64_index x) of
        (Some i, Some j) \<Rightarrow>
          (if y = CHR ''='' \<and> z = CHR ''='' \<and> rest = [] then
             Some [char_of (i * 4 + j div 16)]
           else case b64_index y of
             None \<Rightarrow> None
           | Some k \<Rightarrow>
               (if z = CHR ''='' \<and> rest = [] then
                  Some [char_of (i * 4 + j div 16), char_of (j mod 16 * 16 + k div 4)]
                else case b64_index z of
                  None \<Rightarrow> None
                | Some l \<Rightarrow>
                    map_option
                      (\<lambda>bs. [char_of (i * 4 + j div 16), char_of (j mod 16 * 16 + k div 4),
                             char_of (k mod 4 * 64 + l)] @ bs)
                      (b64decode rest)))
      | _ \<Rightarrow> None)"
| "b64decode _ = None"

text \<open>Python's \<^verbatim>\<open>str\<close> on an integer: decimal digits, with a minus sign below zero.\<close>

definition digit_char :: "nat \<Rightarrow> char" where
  "digit_char d = char_of (48 + d)"

fun nat_digits :: "nat \<Rightarrow> string" where
  "nat_digits n =
     (if n < 10 then [digit_char n] else nat_digits (n div 10) @ [digit_char (n mod 10)])"

declare nat_digits.simps [simp del]

definition str_of_int :: "int \<Rightarrow> string" where
  "str_of_int i = (if i < 0 then CHR ''-'' # nat_digits (nat (- i)) else nat_digits (nat i))"

definition to_global_id :: "string \<Rightarrow> int \<Rightarrow> string" where
  "to_global_id type_tag i = b64encode (type_tag @ CHR '':'' # str_of_int i)"


text \<open>
  Reading a decimal text back. These two functions are not part of the program: they
  serve to show that \<open>str_of_int\<close> loses nothing.
\<close>

definition digit_val :: "char \<Rightarrow> nat" where
  "digit_val c = of_char c - 48"

definition nat_of_digits :: "string \<Rightarrow> nat" where
  "nat_of_digits s = foldl (\<lambda>acc c. acc * 10 + digit_val c) 0 s"

definition int_of_str :: "string \<Rightarrow> int" where
  "int_of_str s =
     (case s of
        [] \<Rightarrow> 0
      | c # cs \<Rightarrow> if c = CHR ''-'' then - int (nat_of_digits cs) else int (nat_of_digits s))"

section \<open>The flattener\<close>

text \<open>
  Python's truth test \<^verbatim>\<open>if parent_id:\<close> on an optional integer: \<^verbatim>\<open>None\<close> and \<^verbatim>\<open>0\<close> are false.
\<close>

definition truthy :: "int option \<Rightarrow> bool" where
  "truthy p = (case p of None \<Rightarrow> False | Some v \<Rightarrow> v \<noteq> 0)"

text \<open>\<^verbatim>\<open>d.get(k, [])\<close> on a dictionary of lists.\<close>

definition get_default :: "(int \<rightharpoonup> int list) \<Rightarrow> int \<Rightarrow> int list" where
  "get_default d k = (case d k of None \<Rightarrow> [] | Some cs \<Rightarrow> cs)"

text \<open>
  One turn of the first loop of \<^verbatim>\<open>build_flat_tree\<close>:
  \<^verbatim>\<open>if parent_id: id_to_children.setdefault(parent_id, []).append(node_id)\<close>.
\<close>

definition record_child :: "RawNode \<Rightarrow> (int \<rightharpoonup> int list) \<Rightarrow> (int \<rightharpoonup> int list)" where
  "record_child node d =
     (case parent_id node of
        None \<Rightarrow> d
      | Some p \<Rightarrow> if truthy (Some p) then d(p \<mapsto> get_default d p @ [node_id node]) else d)"

definition id_to_children :: "RawNode list \<Rightarrow> (int \<rightharpoonup> int list)" where
  "id_to_children nodes = fold record_child nodes Map.empty"

text \<open>
  \<^verbatim>\<open>build_flat_tree(nodes)\<close>. The encoder \<^verbatim>\<open>to_global_id\<close> of the package is the argument
  \<open>enc\<close>, so that what is shown of the flattener holds for every encoder.
\<close>

definition build_flat_tree :: "(string \<Rightarrow> int \<Rightarrow> string) \<Rightarrow> RawNode list \<Rightarrow> FlatNode list" where
  "build_flat_tree enc nodes =
     (let d = id_to_children nodes in
      map (\<lambda>node.
             \<lparr> flat_id = enc ''AnnotationType'' (node_id node),
               flat_raw_text = raw_text node,
               flat_children = map (enc ''AnnotationType'') (get_default d (node_id node)) \<rparr>)
          nodes)"

text \<open>
  What the first loop files under the key \<open>k\<close>, read off the list: the keys of the rows
  whose parent is \<open>k\<close>, in order, and nothing when \<open>k\<close> is \<open>0\<close>. The record that the second
  loop emits for a row, written with it.
\<close>

definition children_in :: "RawNode list \<Rightarrow> int \<Rightarrow> int list" where
  "children_in nodes k = map node_id (filter (\<lambda>n. parent_id n = Some k \<and> k \<noteq> 0) nodes)"

definition flat_of :: "(string \<Rightarrow> int \<Rightarrow> string) \<Rightarrow> RawNode list \<Rightarrow> RawNode \<Rightarrow> FlatNode" where
  "flat_of enc nodes node =
     \<lparr> flat_id = enc ''AnnotationType'' (node_id node),
       flat_raw_text = raw_text node,
       flat_children = map (enc ''AnnotationType'') (children_in nodes (node_id node)) \<rparr>"

section \<open>The traversal engine\<close>

text \<open>
  The annotation table is a list of rows, in the order in which the database returns
  them when no ordering is asked for. \<^verbatim>\<open>node.parent\<close> loads the row whose primary key is
  \<^verbatim>\<open>node.parent_id\<close> and raises when there is none.
\<close>

definition objects_get :: "RawNode list \<Rightarrow> int \<Rightarrow> RawNode option" where
  "objects_get pop i = find (\<lambda>n. node_id n = i) pop"

text \<open>
  The loop of \<^verbatim>\<open>resolve_full_tree\<close>:
  \<^verbatim>\<open>while root.parent_id is not None: root = root.parent\<close>.
  It has no bound, so the model allows it not to return (\<open>None\<close>).
\<close>

partial_function (option) root_ancestor :: "RawNode list \<Rightarrow> RawNode \<Rightarrow> (error + RawNode) option" where
  "root_ancestor pop root =
     (case parent_id root of
        None \<Rightarrow> Some (Inr root)
      | Some p \<Rightarrow>
          (case objects_get pop p of
             None \<Rightarrow> Some (Inl DoesNotExist)
           | Some par \<Rightarrow> root_ancestor pop par))"

declare root_ancestor.simps [code]

text \<open>
  The loop of \<^verbatim>\<open>resolve_subtree\<close>, which also collects the rows it visits:
  \<^verbatim>\<open>while node.parent_id is not None: ancestors.append(node); node = node.parent\<close>,
  followed by \<^verbatim>\<open>ancestors.append(node)\<close>.
\<close>

partial_function (option) collect_ancestors ::
  "RawNode list \<Rightarrow> RawNode list \<Rightarrow> RawNode \<Rightarrow> (error + RawNode list) option" where
  "collect_ancestors pop ancestors node =
     (case parent_id node of
        None \<Rightarrow> Some (Inr (ancestors @ [node]))
      | Some p \<Rightarrow>
          (case objects_get pop p of
             None \<Rightarrow> Some (Inl DoesNotExist)
           | Some par \<Rightarrow> collect_ancestors pop (ancestors @ [node]) par))"

declare collect_ancestors.simps [code]

text \<open>
  The recursive member of the common table expression,
  \<^verbatim>\<open>cte.join(Annotation, parent_id=cte.col.id)\<close>: one row of the table for every pair of a
  row of the working table and a row of the table whose parent is that row.
\<close>

definition cte_join :: "RawNode list \<Rightarrow> RawNode list \<Rightarrow> RawNode list" where
  "cte_join pop work =
     concat (map (\<lambda>w. filter (\<lambda>n. parent_id n = Some (node_id w)) pop) work)"

text \<open>
  \<^verbatim>\<open>With.recursive\<close> over \<^verbatim>\<open>base_qs.union(recursive_qs, all=True)\<close>: the database keeps a
  working table, first the rows of the base query, then the rows the recursive member
  yields from the previous working table, until that is empty; the result is all working
  tables, duplicates included. On a cyclic table this does not end (\<open>None\<close>).
\<close>

partial_function (option) with_recursive :: "RawNode list \<Rightarrow> RawNode list \<Rightarrow> RawNode list option" where
  "with_recursive pop work =
     (if work = [] then Some []
      else Option.bind (with_recursive pop (cte_join pop work)) (\<lambda>rest. Some (work @ rest)))"

declare with_recursive.simps [code]

text \<open>
  \<^verbatim>\<open>get_descendants\<close>, with the base query \<^verbatim>\<open>Annotation.objects.filter(parent_id=self.id)\<close>.
\<close>

definition get_descendants :: "RawNode list \<Rightarrow> int \<Rightarrow> RawNode list option" where
  "get_descendants pop self_id =
     with_recursive pop (filter (\<lambda>n. parent_id n = Some self_id) pop)"

text \<open>\<^verbatim>\<open>.order_by("id")\<close>.\<close>

definition order_by_id :: "RawNode list \<Rightarrow> RawNode list" where
  "order_by_id rows = sort_key node_id rows"

text \<open>\<^verbatim>\<open>resolve_descendants_tree\<close>: first \<^verbatim>\<open>descendants_list\<close>, then the flat tree.\<close>

definition descendants_list :: "RawNode list \<Rightarrow> RawNode \<Rightarrow> RawNode list option" where
  "descendants_list pop self = map_option order_by_id (get_descendants pop (node_id self))"

definition resolve_descendants_tree ::
  "(string \<Rightarrow> int \<Rightarrow> string) \<Rightarrow> RawNode list \<Rightarrow> RawNode \<Rightarrow> (error + FlatNode list) option" where
  "resolve_descendants_tree enc pop self =
     map_option (\<lambda>rows. Inr (build_flat_tree enc rows)) (descendants_list pop self)"

text \<open>
  \<^verbatim>\<open>resolve_full_tree\<close>: the root ancestor, then \<^verbatim>\<open>get_full_tree\<close> with the base query
  \<^verbatim>\<open>Annotation.objects.filter(id=root.id)\<close>, ordered by \<^verbatim>\<open>id\<close>.
\<close>

definition full_tree_nodes :: "RawNode list \<Rightarrow> RawNode \<Rightarrow> (error + RawNode list) option" where
  "full_tree_nodes pop self =
     (case root_ancestor pop self of
        None \<Rightarrow> None
      | Some (Inl e) \<Rightarrow> Some (Inl e)
      | Some (Inr root) \<Rightarrow>
          (case with_recursive pop (filter (\<lambda>n. node_id n = node_id root) pop) of
             None \<Rightarrow> None
           | Some rows \<Rightarrow> Some (Inr (order_by_id rows))))"

definition resolve_full_tree ::
  "(string \<Rightarrow> int \<Rightarrow> string) \<Rightarrow> RawNode list \<Rightarrow> RawNode \<Rightarrow> (error + FlatNode list) option" where
  "resolve_full_tree enc pop self =
     map_option (map_sum (\<lambda>e. e) (build_flat_tree enc)) (full_tree_nodes pop self)"

text \<open>
  \<^verbatim>\<open>resolve_subtree\<close>: the rows whose \<^verbatim>\<open>id\<close> is one of \<^verbatim>\<open>ancestor_ids\<close>, followed
  (\<^verbatim>\<open>union(..., all=True)\<close>) by the descendants of \<^verbatim>\<open>self\<close>. No ordering is asked for.
\<close>

definition subtree_nodes :: "RawNode list \<Rightarrow> RawNode \<Rightarrow> (error + RawNode list) option" where
  "subtree_nodes pop self =
     (case collect_ancestors pop [] self of
        None \<Rightarrow> None
      | Some (Inl e) \<Rightarrow> Some (Inl e)
      | Some (Inr ancestors) \<Rightarrow>
          (let ancestor_ids = map node_id ancestors in
           case get_descendants pop (node_id self) of
             None \<Rightarrow> None
           | Some descendants \<Rightarrow>
               Some (Inr (filter (\<lambda>n. node_id n \<in> set ancestor_ids) pop @ descendants))))"

definition resolve_subtree ::
  "(string \<Rightarrow> int \<Rightarrow> string) \<Rightarrow> RawNode list \<Rightarrow> RawNode \<Rightarrow> (error + FlatNode list) option" where
  "resolve_subtree enc pop self =
     map_option (map_sum (\<lambda>e. e) (build_flat_tree enc)) (subtree_nodes pop self)"

section \<open>Populations\<close>

text \<open>
  The parent relation of a table, on primary keys: the pair \<open>(c, p)\<close> says that the row
  with key \<open>c\<close> has parent \<open>p\<close>.
\<close>

definition parent_rel :: "RawNode list \<Rightarrow> (int \<times> int) set" where
  "parent_rel pop = {(c, p). \<exists>n \<in> set pop. node_id n = c \<and> parent_id n = Some p}"

text \<open>
  An acyclic population: primary keys are unique and no row is its own ancestor.
\<close>

definition acyclic_population :: "RawNode list \<Rightarrow> bool" where
  "acyclic_population pop \<longleftrightarrow> distinct (map node_id pop) \<and> acyclic (parent_rel pop)"

text \<open>The foreign key holds: every parent reference names a row of the table.\<close>

definition parents_present :: "RawNode list \<Rightarrow> bool" where
  "parents_present pop \<longleftrightarrow>
     (\<forall>n \<in> set pop. case parent_id n of None \<Rightarrow> True | Some p \<Rightarrow> p \<in> node_id ` set pop)"

text \<open>
  The rows below a key (children, their children, and so on) and the rows on the way up
  from a key, the key's own row included.
\<close>

definition descendants_of :: "RawNode list \<Rightarrow> int \<Rightarrow> RawNode set" where
  "descendants_of pop i = {n \<in> set pop. (node_id n, i) \<in> (parent_rel pop)\<^sup>+}"

definition ancestor_path :: "RawNode list \<Rightarrow> int \<Rightarrow> RawNode set" where
  "ancestor_path pop i = {n \<in> set pop. (i, node_id n) \<in> (parent_rel pop)\<^sup>*}"

text \<open>The population of the scenarios: \<open>{1: null, 2: 1, 3: 1, 4: 2}\<close>.\<close>

definition row :: "int \<Rightarrow> int option \<Rightarrow> string \<Rightarrow> RawNode" where
  "row i p t = \<lparr> node_id = i, parent_id = p, raw_text = t \<rparr>"

definition scenario :: "RawNode list" where
  "scenario = [row 1 None ''one'', row 2 (Some 1) ''two'', row 3 (Some 1) ''three'',
               row 4 (Some 2) ''four'']"

section \<open>Properties of the codec\<close>


lemma index_of_nth: "distinct xs \<Longrightarrow> n < length xs \<Longrightarrow> index_of xs (xs ! n) = Some n"
proof (induction xs arbitrary: n)
  case Nil then show ?case by simp
next
  case (Cons x xs)
  show ?case
  proof (cases n)
    case 0 then show ?thesis by simp
  next
    case (Suc m)
    with Cons.prems have "xs ! m \<in> set xs" "x \<notin> set xs" by auto
    then have "x \<noteq> xs ! m" by auto
    with Suc Cons show ?thesis by auto
  qed
qed

lemma distinct_b64_alphabet: "distinct b64_alphabet"
  unfolding b64_alphabet_def by simp

lemma length_b64_alphabet: "length b64_alphabet = 64"
  unfolding b64_alphabet_def by simp

lemma b64_index_char: "n < 64 \<Longrightarrow> b64_index (b64_char n) = Some n"
  by (simp add: b64_index_def b64_char_def index_of_nth distinct_b64_alphabet length_b64_alphabet)

lemma b64_char_not_pad: "n < 64 \<Longrightarrow> b64_char n \<noteq> CHR ''=''"
proof -
  assume "n < 64"
  then have "b64_char n \<in> set b64_alphabet"
    by (simp add: b64_char_def length_b64_alphabet)
  moreover have "CHR ''='' \<notin> set b64_alphabet"
    unfolding b64_alphabet_def by simp
  ultimately show ?thesis by auto
qed

lemma of_char_lt: "(of_char (c::char) :: nat) < 256"
proof -
  have "(of_char c :: nat) mod 256 < 256" by simp
  then show ?thesis by (simp only: of_char_mod_256)
qed

lemma div16_lt: fixes b :: nat assumes "b < 256" shows "b div 16 < 16"
  using assms by (simp add: div_less_iff_less_mult)

lemma div64_lt: fixes c :: nat assumes "c < 256" shows "c div 64 < 4"
  using assms by (simp add: div_less_iff_less_mult)

lemma div4_lt: fixes a :: nat assumes "a < 256" shows "a div 4 < 64"
  using assms by (simp add: div_less_iff_less_mult)

lemma sextet2_lt: fixes a b :: nat assumes "b < 256" shows "a mod 4 * 16 + b div 16 < 64"
proof -
  have "a mod 4 < 4" by simp
  with div16_lt [OF assms] show ?thesis by linarith
qed

lemma sextet3_lt: fixes b c :: nat assumes "c < 256" shows "b mod 16 * 4 + c div 64 < 64"
proof -
  have "b mod 16 < 16" by simp
  with div64_lt [OF assms] show ?thesis by linarith
qed

lemma octet1: fixes a b :: nat assumes "b < 256"
  shows "a div 4 * 4 + (a mod 4 * 16 + b div 16) div 16 = a"
  using div16_lt [OF assms] by simp

lemma octet2: fixes b c :: nat assumes "b < 256" "c < 256" 
  shows "(a mod 4 * 16 + b div 16) mod 16 * 16 + (b mod 16 * 4 + c div 64) div 4 = b"
  using div16_lt [OF assms(1)] div64_lt [OF assms(2)] by simp

lemma octet3: fixes b c :: nat assumes "c < 256" 
  shows "(b mod 16 * 4 + c div 64) mod 4 * 64 + c mod 64 = c"
  using div64_lt [OF assms] by simp

lemma b64_group:
  fixes a b c :: char
  defines "s1 \<equiv> of_char a div 4"
      and "s2 \<equiv> of_char a mod 4 * 16 + of_char b div 16"
      and "s3 \<equiv> of_char b mod 16 * 4 + of_char c div 64"
      and "s4 \<equiv> of_char c mod 64"
  shows "b64_index (b64_char s1) = Some s1 \<and> b64_index (b64_char s2) = Some s2 \<and>
         b64_index (b64_char s3) = Some s3 \<and> b64_index (b64_char s4) = Some s4 \<and>
         b64_char s3 \<noteq> CHR ''='' \<and> b64_char s4 \<noteq> CHR ''='' \<and>
         char_of (s1 * 4 + s2 div 16) = a \<and>
         char_of (s2 mod 16 * 16 + s3 div 4) = b \<and>
         char_of (s3 mod 4 * 64 + s4) = c"
proof -
  have a: "(of_char a :: nat) < 256" and b: "(of_char b :: nat) < 256"
    and c: "(of_char c :: nat) < 256" by (rule of_char_lt)+
  have l1: "s1 < 64" unfolding s1_def by (rule div4_lt [OF a])
  have l2: "s2 < 64" unfolding s2_def by (rule sextet2_lt [OF b])
  have l3: "s3 < 64" unfolding s3_def by (rule sextet3_lt [OF c])
  have l4: "s4 < 64" unfolding s4_def by simp
  have i: "b64_index (b64_char s1) = Some s1" "b64_index (b64_char s2) = Some s2"
        "b64_index (b64_char s3) = Some s3" "b64_index (b64_char s4) = Some s4"
    using l1 l2 l3 l4 by (simp_all only: b64_index_char)
  have p: "b64_char s3 \<noteq> CHR ''=''" "b64_char s4 \<noteq> CHR ''=''"
    using l3 l4 by (simp_all only: b64_char_not_pad not_False_eq_True)
  have "s1 * 4 + s2 div 16 = of_char a" unfolding s1_def s2_def by (rule octet1 [OF b])
  then have o1: "char_of (s1 * 4 + s2 div 16) = a" by simp
  have "s2 mod 16 * 16 + s3 div 4 = of_char b" unfolding s2_def s3_def by (rule octet2 [OF b c])
  then have o2: "char_of (s2 mod 16 * 16 + s3 div 4) = b" by simp
  have "s3 mod 4 * 64 + s4 = of_char c" unfolding s3_def s4_def by (rule octet3 [OF c])
  then have o3: "char_of (s3 mod 4 * 64 + s4) = c" by simp
  from i p o1 o2 o3 show ?thesis by simp
qed

lemma b64decode_b64encode: "b64decode (b64encode xs) = Some xs"
proof (induction xs rule: b64encode.induct)
  case 1
  show ?case by simp
next
  case (2 a)
  have z: "of_char (char_of (0::nat)) = (0::nat)" by simp
  from b64_group [of a "char_of (0::nat)" "char_of (0::nat)"]
  show ?case by (simp add: z)
next
  case (3 a b)
  have z: "of_char (char_of (0::nat)) = (0::nat)" by simp
  from b64_group [of a b "char_of (0::nat)"]
  show ?case by (simp add: z)
next
  case (4 a b c rest)
  from b64_group [of a b c] 4
  show ?case by simp
qed

lemma digit_val_char: "d < 10 \<Longrightarrow> digit_val (digit_char d) = d"
  by (simp add: digit_val_def digit_char_def)

lemma digit_char_not_minus: "d < 10 \<Longrightarrow> digit_char d \<noteq> CHR ''-''"
proof
  assume d: "d < 10" and "digit_char d = CHR ''-''"
  then have "(of_char (digit_char d) :: nat) = of_char (CHR ''-'')" by simp
  with d show False by (simp add: digit_char_def)
qed

lemma nat_of_digits_snoc: "nat_of_digits (s @ [c]) = nat_of_digits s * 10 + digit_val c"
  by (simp add: nat_of_digits_def)

lemma nat_of_digits_nat_digits: "nat_of_digits (nat_digits n) = n"
proof (induction n rule: nat_digits.induct)
  case (1 n)
  show ?case
  proof (cases "n < 10")
    case True
    then show ?thesis
      by (simp add: nat_digits.simps [of n] nat_of_digits_def digit_val_char)
  next
    case False
    with 1 have "nat_of_digits (nat_digits (n div 10)) = n div 10" by simp
    with False show ?thesis
      by (simp add: nat_digits.simps [of n] nat_of_digits_snoc digit_val_char)
  qed
qed

lemma hd_nat_digits: "\<exists>d cs. d < 10 \<and> nat_digits n = digit_char d # cs"
proof (induction n rule: nat_digits.induct)
  case (1 n)
  show ?case
  proof (cases "n < 10")
    case True
    then show ?thesis by (auto simp: nat_digits.simps [of n])
  next
    case False
    with 1 obtain d cs where "d < 10" "nat_digits (n div 10) = digit_char d # cs" by auto
    with False show ?thesis by (auto simp: nat_digits.simps [of n])
  qed
qed

lemma int_of_str_of_int: "int_of_str (str_of_int i) = i"
proof (cases "i < 0")
  case True
  then show ?thesis
    by (simp add: int_of_str_def str_of_int_def nat_of_digits_nat_digits)
next
  case False
  obtain d cs where d: "d < 10" "nat_digits (nat i) = digit_char d # cs"
    using hd_nat_digits by blast
  have "nat_of_digits (digit_char d # cs) = nat i"
    using nat_of_digits_nat_digits [of "nat i"] d by simp
  with False d show ?thesis
    by (simp add: int_of_str_def str_of_int_def digit_char_not_minus)
qed

lemma str_of_int_eqD: "str_of_int i = str_of_int j \<Longrightarrow> i = j"
  using int_of_str_of_int by metis

lemma b64encode_eqD: "b64encode xs = b64encode ys \<Longrightarrow> xs = ys"
  using b64decode_b64encode by (metis option.inject)

lemma to_global_id_eqD: "to_global_id t i = to_global_id t j \<Longrightarrow> i = j"
  by (auto simp: to_global_id_def dest!: b64encode_eqD str_of_int_eqD)

lemma inj_to_global_id: "inj (to_global_id t)"
  by (rule injI) (rule to_global_id_eqD)


section \<open>Properties of the flattener\<close>

lemma get_default_record_child:
  "get_default (record_child node d) k =
     get_default d k @ (if parent_id node = Some k \<and> k \<noteq> 0 then [node_id node] else [])"
  by (cases "parent_id node") (auto simp: record_child_def get_default_def truthy_def)

lemma get_default_fold:
  "get_default (fold record_child nodes d) k = get_default d k @ children_in nodes k"
proof (induction nodes arbitrary: d)
  case Nil
  show ?case by (simp add: children_in_def)
next
  case (Cons n nodes)
  show ?case
    by (simp add: Cons.IH get_default_record_child children_in_def)
qed

lemma get_default_id_to_children:
  "get_default (id_to_children nodes) k = children_in nodes k"
  by (simp add: id_to_children_def get_default_fold) (simp add: get_default_def)

lemma build_flat_tree_eq:
  "build_flat_tree enc nodes =
     map (\<lambda>node. \<lparr> flat_id = enc ''AnnotationType'' (node_id node),
                   flat_raw_text = raw_text node,
                   flat_children = map (enc ''AnnotationType'') (children_in nodes (node_id node)) \<rparr>)
         nodes"
  by (simp add: build_flat_tree_def Let_def get_default_id_to_children)

lemma length_build_flat_tree: "length (build_flat_tree enc nodes) = length nodes"
  by (simp add: build_flat_tree_eq)

lemma nth_build_flat_tree:
  "i < length nodes \<Longrightarrow>
   build_flat_tree enc nodes ! i =
     \<lparr> flat_id = enc ''AnnotationType'' (node_id (nodes ! i)),
       flat_raw_text = raw_text (nodes ! i),
       flat_children = map (enc ''AnnotationType'') (children_in nodes (node_id (nodes ! i))) \<rparr>"
  by (simp add: build_flat_tree_eq)

lemma build_flat_tree_flat_of: "build_flat_tree enc nodes = map (flat_of enc nodes) nodes"
  by (simp add: build_flat_tree_eq flat_of_def)

lemma nth_build_flat_tree_flat_of:
  "i < length nodes \<Longrightarrow> build_flat_tree enc nodes ! i = flat_of enc nodes (nodes ! i)"
  by (simp add: build_flat_tree_flat_of)

lemma same_key_same_row:
  "distinct (map node_id pop) \<Longrightarrow> a \<in> set pop \<Longrightarrow> b \<in> set pop \<Longrightarrow> node_id a = node_id b \<Longrightarrow> a = b"
  by (auto simp: distinct_map dest: inj_onD)

lemma count_list_map_key:
  "\<forall>m \<in> set xs. f m = f a \<longrightarrow> m = a \<Longrightarrow> count_list (map f xs) (f a) = count_list xs a"
  by (induction xs) auto

lemma count_list_filter:
  "count_list (filter P xs) a = (if P a then count_list xs a else 0)"
  by (induction xs) auto


subsection \<open>Children within the result set\<close>

text \<open>
  Claim C4. Let \<open>nodes\<close> be the input of the flattener, taken from a table \<open>pop\<close> with
  unique keys, and let \<open>X\<close> be its row at position \<open>i\<close>. A child \<open>c\<close> of \<open>X\<close> in the table
  that is not in \<open>nodes\<close> does not have its external id in the children list of \<open>X\<close>, and
  every entry of that list is the external id of a row of \<open>nodes\<close>: the list is computed
  from the input alone. The encoder is any injective one.
\<close>

theorem children_within_result_set:
  assumes "distinct (map node_id pop)" and "set nodes \<subseteq> set pop"
    and "inj (enc ''AnnotationType'')"
    and "i < length nodes"
    and "c \<in> set pop" and "parent_id c = Some (node_id (nodes ! i))"
    and "c \<notin> set nodes"
  shows "enc ''AnnotationType'' (node_id c) \<notin> set (flat_children (build_flat_tree enc nodes ! i))
       \<and> set (flat_children (build_flat_tree enc nodes ! i))
           \<subseteq> enc ''AnnotationType'' ` node_id ` set nodes"
proof -
  let ?x = "node_id (nodes ! i)"
  have ch: "flat_children (build_flat_tree enc nodes ! i)
              = map (enc ''AnnotationType'') (children_in nodes ?x)"
    using assms(4) by (simp add: nth_build_flat_tree)
  have sub: "set (children_in nodes ?x) \<subseteq> node_id ` set nodes"
    by (auto simp: children_in_def)
  have "enc ''AnnotationType'' (node_id c) \<notin> enc ''AnnotationType'' ` set (children_in nodes ?x)"
  proof
    assume "enc ''AnnotationType'' (node_id c) \<in> enc ''AnnotationType'' ` set (children_in nodes ?x)"
    then obtain k where k: "k \<in> set (children_in nodes ?x)"
      and "enc ''AnnotationType'' (node_id c) = enc ''AnnotationType'' k" by auto
    with assms(3) have "node_id c = k" by (auto dest: injD)
    with k sub obtain m where m: "m \<in> set nodes" "node_id m = node_id c" by auto
    with assms(2) have "m \<in> set pop" by auto
    with assms(1,5) m have "m = c" by (auto intro: same_key_same_row)
    with m assms(7) show False by simp
  qed
  with ch sub show ?thesis by auto
qed

theorem children_within_result_set_witness:
  "distinct (map node_id scenario)
   \<and> set [row 1 None ''one'', row 2 (Some 1) ''two'', row 4 (Some 2) ''four''] \<subseteq> set scenario
   \<and> inj (to_global_id ''AnnotationType'')
   \<and> (0::nat) < length [row 1 None ''one'', row 2 (Some 1) ''two'', row 4 (Some 2) ''four'']
   \<and> row 3 (Some 1) ''three'' \<in> set scenario
   \<and> parent_id (row 3 (Some 1) ''three'')
       = Some (node_id ([row 1 None ''one'', row 2 (Some 1) ''two'', row 4 (Some 2) ''four''] ! 0))
   \<and> row 3 (Some 1) ''three'' \<notin> set [row 1 None ''one'', row 2 (Some 1) ''two'', row 4 (Some 2) ''four'']
   \<and> to_global_id ''AnnotationType'' 3
       \<notin> set (flat_children (build_flat_tree to_global_id
                 [row 1 None ''one'', row 2 (Some 1) ''two'', row 4 (Some 2) ''four''] ! 0))"
proof -
  let ?nodes = "[row 1 None ''one'', row 2 (Some 1) ''two'', row 4 (Some 2) ''four'']"
  have h1: "distinct (map node_id scenario)" by (simp add: scenario_def row_def)
  have h2: "set ?nodes \<subseteq> set scenario" by (simp add: scenario_def)
  have h3: "inj (to_global_id ''AnnotationType'')" by (rule inj_to_global_id)
  have h4: "(0::nat) < length ?nodes" by simp
  have h5: "row 3 (Some 1) ''three'' \<in> set scenario" by (simp add: scenario_def)
  have h6: "parent_id (row 3 (Some 1) ''three'') = Some (node_id (?nodes ! 0))"
    by (simp add: row_def)
  have h7: "row 3 (Some 1) ''three'' \<notin> set ?nodes" by (simp add: row_def)
  have n3: "node_id (row 3 (Some 1) ''three'') = 3" by (simp add: row_def)
  from children_within_result_set [where enc = to_global_id, OF h1 h2 h3 h4 h5 h6 h7]
  have "to_global_id ''AnnotationType'' 3
       \<notin> set (flat_children (build_flat_tree to_global_id ?nodes ! 0))"
    unfolding n3 by (rule conjunct1)
  with h1 h2 h3 h4 h5 h6 h7 show ?thesis by blast
qed


lemma record_child_falsy: "parent_id n = Some 0 \<Longrightarrow> record_child n d = d"
  by (simp add: record_child_def truthy_def)

lemma fold_record_child_filter:
  "fold record_child (filter (\<lambda>n. parent_id n \<noteq> Some 0) nodes) d = fold record_child nodes d"
  by (induction nodes arbitrary: d) (auto simp: record_child_falsy)

lemma record_child_key_0: "record_child n d 0 = d 0"
  by (cases "parent_id n") (auto simp: record_child_def truthy_def)

lemma fold_record_child_key_0: "fold record_child nodes d 0 = d 0"
  by (induction nodes arbitrary: d) (auto simp: record_child_key_0)

lemma children_in_0: "children_in nodes 0 = []"
  by (simp add: children_in_def)

subsection \<open>A parent reference of zero\<close>

text \<open>
  Claim C9. The flattener takes every false parent reference for "no parent", \<open>0\<close> as well
  as \<^verbatim>\<open>None\<close>: the rows whose parent is \<open>0\<close> leave the dictionary of children as it is,
  nothing is filed under the key \<open>0\<close>, and the record of a row with key \<open>0\<close> has the empty
  children list, whatever rows of the input name it as their parent.
\<close>

theorem falsy_parent_not_recorded:
  "id_to_children nodes = id_to_children (filter (\<lambda>n. parent_id n \<noteq> Some 0) nodes)
   \<and> id_to_children nodes 0 = None
   \<and> (\<forall>i < length nodes. node_id (nodes ! i) = 0 \<longrightarrow>
         flat_children (build_flat_tree enc nodes ! i) = [])"
proof (intro conjI allI impI)
  show "id_to_children nodes = id_to_children (filter (\<lambda>n. parent_id n \<noteq> Some 0) nodes)"
    by (simp add: id_to_children_def fold_record_child_filter)
  show "id_to_children nodes 0 = None"
    by (simp add: id_to_children_def fold_record_child_key_0)
next
  fix i
  assume "i < length nodes" and "node_id (nodes ! i) = 0"
  then show "flat_children (build_flat_tree enc nodes ! i) = []"
    by (simp add: nth_build_flat_tree children_in_0)
qed

theorem falsy_parent_not_recorded_witness:
  "(0::nat) < length [row 0 None ''zero'', row 5 (Some 0) ''five'']
   \<and> node_id ([row 0 None ''zero'', row 5 (Some 0) ''five''] ! 0) = 0
   \<and> parent_id (row 5 (Some 0) ''five'') = Some (node_id (row 0 None ''zero''))
   \<and> flat_children
        (build_flat_tree to_global_id [row 0 None ''zero'', row 5 (Some 0) ''five''] ! 0) = []"
proof -
  let ?nodes = "[row 0 None ''zero'', row 5 (Some 0) ''five'']"
  have h1: "(0::nat) < length ?nodes" by simp
  have h2: "node_id (?nodes ! 0) = 0" by (simp add: row_def)
  have h3: "parent_id (row 5 (Some 0) ''five'') = Some (node_id (row 0 None ''zero''))"
    by (simp add: row_def)
  from falsy_parent_not_recorded [where enc = to_global_id and nodes = ?nodes] h1 h2
  have "flat_children (build_flat_tree to_global_id ?nodes ! 0) = []" by blast
  with h1 h2 h3 show ?thesis by blast
qed

lemma count_list_children_in:
  assumes "\<forall>m \<in> set nodes. node_id m = node_id n \<longrightarrow> m = n"
    and "parent_id n = Some k" and "k \<noteq> 0"
  shows "count_list (children_in nodes k) (node_id n) = count_list nodes n"
proof -
  have "count_list (children_in nodes k) (node_id n)
          = count_list (filter (\<lambda>m. parent_id m = Some k \<and> k \<noteq> 0) nodes) n"
    unfolding children_in_def using assms(1) by (intro count_list_map_key) auto
  also have "\<dots> = count_list nodes n"
    using assms(2,3) by (simp add: count_list_filter)
  finally show ?thesis .
qed

lemma count_list_inj_map_key:
  "inj f \<Longrightarrow> count_list (map f xs) (f a) = count_list xs a"
  by (induction xs) (auto dest: injD)

lemma flattener_counts:
  assumes "inj (enc ''AnnotationType'')"
    and "\<forall>m \<in> set nodes. node_id m = node_id n \<longrightarrow> m = n"
  shows "count_list (build_flat_tree enc nodes) (flat_of enc nodes n) = count_list nodes n"
    and "i < length nodes \<Longrightarrow> parent_id n = Some (node_id (nodes ! i)) \<Longrightarrow>
         node_id (nodes ! i) \<noteq> 0 \<Longrightarrow>
         count_list (flat_children (build_flat_tree enc nodes ! i))
           (enc ''AnnotationType'' (node_id n)) = count_list nodes n"
proof -
  have "\<forall>m \<in> set nodes. flat_of enc nodes m = flat_of enc nodes n \<longrightarrow> m = n"
  proof (intro ballI impI)
    fix m assume m: "m \<in> set nodes" and "flat_of enc nodes m = flat_of enc nodes n"
    then have "enc ''AnnotationType'' (node_id m) = enc ''AnnotationType'' (node_id n)"
      by (simp add: flat_of_def)
    with assms(1) have "node_id m = node_id n" by (auto dest: injD)
    with assms(2) m show "m = n" by blast
  qed
  then show "count_list (build_flat_tree enc nodes) (flat_of enc nodes n) = count_list nodes n"
    unfolding build_flat_tree_flat_of by (rule count_list_map_key)
next
  assume i: "i < length nodes" and p: "parent_id n = Some (node_id (nodes ! i))"
    and z: "node_id (nodes ! i) \<noteq> 0"
  have "count_list (flat_children (build_flat_tree enc nodes ! i)) (enc ''AnnotationType'' (node_id n))
          = count_list (children_in nodes (node_id (nodes ! i))) (node_id n)"
    using assms(1) i by (simp add: nth_build_flat_tree count_list_inj_map_key)
  also have "\<dots> = count_list nodes n"
    using assms(2) p z by (rule count_list_children_in)
  finally show "count_list (flat_children (build_flat_tree enc nodes ! i))
                  (enc ''AnnotationType'' (node_id n)) = count_list nodes n" .
qed

lemma count_list_map_le: "count_list xs a \<le> count_list (map f xs) (f a)"
  by (induction xs) auto

lemma flattener_counts_le:
  shows "count_list nodes n \<le> count_list (build_flat_tree enc nodes) (flat_of enc nodes n)"
    and "i < length nodes \<Longrightarrow> parent_id n = Some (node_id (nodes ! i)) \<Longrightarrow>
         node_id (nodes ! i) \<noteq> 0 \<Longrightarrow>
         count_list nodes n
           \<le> count_list (flat_children (build_flat_tree enc nodes ! i))
               (enc ''AnnotationType'' (node_id n))"
proof -
  show "count_list nodes n \<le> count_list (build_flat_tree enc nodes) (flat_of enc nodes n)"
    unfolding build_flat_tree_flat_of by (rule count_list_map_le)
next
  assume i: "i < length nodes" and p: "parent_id n = Some (node_id (nodes ! i))"
    and z: "node_id (nodes ! i) \<noteq> 0"
  let ?k = "node_id (nodes ! i)"
  have "count_list nodes n = count_list (filter (\<lambda>m. parent_id m = Some ?k \<and> ?k \<noteq> 0) nodes) n"
    using p z by (simp add: count_list_filter)
  also have "\<dots> \<le> count_list (children_in nodes ?k) (node_id n)"
    unfolding children_in_def by (rule count_list_map_le)
  also have "\<dots> \<le> count_list (map (enc ''AnnotationType'') (children_in nodes ?k))
                       (enc ''AnnotationType'' (node_id n))"
    by (rule count_list_map_le)
  also have "\<dots> = count_list (flat_children (build_flat_tree enc nodes ! i))
                       (enc ''AnnotationType'' (node_id n))"
    using i by (simp add: nth_build_flat_tree)
  finally show "count_list nodes n
           \<le> count_list (flat_children (build_flat_tree enc nodes ! i))
               (enc ''AnnotationType'' (node_id n))" .
qed

subsection \<open>No deduplication in the flattener\<close>

text \<open>
  Claim C10, as amended. For every input list the flattener emits one record per input row,
  in the order of the input, with the text of the row unchanged, and it removes no
  duplicate: a row that occurs \<open>k\<close> times in the input has its record at least \<open>k\<close> times in
  the output and, when the key of its parent is not \<open>0\<close>, its external id at least \<open>k\<close> times
  in the children list of its parent. A parent with key \<open>0\<close> has the empty children list,
  since a parent reference of \<open>0\<close> counts as no parent. The counts are exactly \<open>k\<close> when the
  encoder is injective and the row is the only one of the input with its key.
\<close>

theorem flattener_keeps_duplicates:
  "length (build_flat_tree enc nodes) = length nodes
   \<and> map flat_id (build_flat_tree enc nodes) = map (\<lambda>m. enc ''AnnotationType'' (node_id m)) nodes
   \<and> map flat_raw_text (build_flat_tree enc nodes) = map raw_text nodes
   \<and> count_list nodes n \<le> count_list (build_flat_tree enc nodes) (flat_of enc nodes n)
   \<and> (\<forall>i < length nodes.
         parent_id n = Some (node_id (nodes ! i)) \<and> node_id (nodes ! i) \<noteq> 0 \<longrightarrow>
         count_list nodes n
           \<le> count_list (flat_children (build_flat_tree enc nodes ! i))
               (enc ''AnnotationType'' (node_id n)))
   \<and> (\<forall>i < length nodes.
         node_id (nodes ! i) = 0 \<longrightarrow> flat_children (build_flat_tree enc nodes ! i) = [])
   \<and> (inj (enc ''AnnotationType'') \<and> (\<forall>m \<in> set nodes. node_id m = node_id n \<longrightarrow> m = n) \<longrightarrow>
        count_list (build_flat_tree enc nodes) (flat_of enc nodes n) = count_list nodes n
        \<and> (\<forall>i < length nodes.
              parent_id n = Some (node_id (nodes ! i)) \<and> node_id (nodes ! i) \<noteq> 0 \<longrightarrow>
              count_list (flat_children (build_flat_tree enc nodes ! i))
                (enc ''AnnotationType'' (node_id n)) = count_list nodes n))"
proof (intro conjI impI allI)
  show "length (build_flat_tree enc nodes) = length nodes"
    by (rule length_build_flat_tree)
  show "map flat_id (build_flat_tree enc nodes) = map (\<lambda>m. enc ''AnnotationType'' (node_id m)) nodes"
    by (simp add: build_flat_tree_flat_of flat_of_def)
  show "map flat_raw_text (build_flat_tree enc nodes) = map raw_text nodes"
    by (simp add: build_flat_tree_flat_of flat_of_def)
  show "count_list nodes n \<le> count_list (build_flat_tree enc nodes) (flat_of enc nodes n)"
    by (rule flattener_counts_le(1))
next
  fix i
  assume "i < length nodes"
    and "parent_id n = Some (node_id (nodes ! i)) \<and> node_id (nodes ! i) \<noteq> 0"
  then show "count_list nodes n
           \<le> count_list (flat_children (build_flat_tree enc nodes ! i))
               (enc ''AnnotationType'' (node_id n))"
    by (intro flattener_counts_le(2)) simp_all
next
  fix i
  assume "i < length nodes" and "node_id (nodes ! i) = 0"
  then show "flat_children (build_flat_tree enc nodes ! i) = []"
    by (simp add: nth_build_flat_tree children_in_0)
next
  assume "inj (enc ''AnnotationType'') \<and> (\<forall>m \<in> set nodes. node_id m = node_id n \<longrightarrow> m = n)"
  then show "count_list (build_flat_tree enc nodes) (flat_of enc nodes n) = count_list nodes n"
    by (intro flattener_counts(1)) simp_all
next
  fix i
  assume "inj (enc ''AnnotationType'') \<and> (\<forall>m \<in> set nodes. node_id m = node_id n \<longrightarrow> m = n)"
    and "i < length nodes"
    and "parent_id n = Some (node_id (nodes ! i)) \<and> node_id (nodes ! i) \<noteq> 0"
  then show "count_list (flat_children (build_flat_tree enc nodes ! i))
               (enc ''AnnotationType'' (node_id n)) = count_list nodes n"
    by (intro flattener_counts(2)) simp_all
qed

theorem flattener_keeps_duplicates_witness:
  "inj (to_global_id ''AnnotationType'')
   \<and> (0::nat) < length [row 1 None ''one'', row 2 (Some 1) ''two'', row 2 (Some 1) ''two'']
   \<and> parent_id (row 2 (Some 1) ''two'')
        = Some (node_id ([row 1 None ''one'', row 2 (Some 1) ''two'', row 2 (Some 1) ''two''] ! 0))
   \<and> node_id ([row 1 None ''one'', row 2 (Some 1) ''two'', row 2 (Some 1) ''two''] ! 0) \<noteq> 0
   \<and> count_list [row 1 None ''one'', row 2 (Some 1) ''two'', row 2 (Some 1) ''two'']
        (row 2 (Some 1) ''two'') = 2
   \<and> length (build_flat_tree to_global_id
        [row 1 None ''one'', row 2 (Some 1) ''two'', row 2 (Some 1) ''two'']) = 3
   \<and> count_list
        (build_flat_tree to_global_id
           [row 1 None ''one'', row 2 (Some 1) ''two'', row 2 (Some 1) ''two''])
        (flat_of to_global_id [row 1 None ''one'', row 2 (Some 1) ''two'', row 2 (Some 1) ''two'']
           (row 2 (Some 1) ''two'')) = 2
   \<and> count_list
        (flat_children
           (build_flat_tree to_global_id
              [row 1 None ''one'', row 2 (Some 1) ''two'', row 2 (Some 1) ''two''] ! 0))
        (to_global_id ''AnnotationType'' 2) = 2"
proof -
  let ?n = "row 2 (Some 1) ''two''"
  let ?nodes = "[row 1 None ''one'', ?n, ?n]"
  have h1: "inj (to_global_id ''AnnotationType'')" by (rule inj_to_global_id)
  have h2: "\<forall>m \<in> set ?nodes. node_id m = node_id ?n \<longrightarrow> m = ?n" by (simp add: row_def)
  have h3: "(0::nat) < length ?nodes" by simp
  have h4: "parent_id ?n = Some (node_id (?nodes ! 0))" by (simp add: row_def)
  have h5: "node_id (?nodes ! 0) \<noteq> 0" by (simp add: row_def)
  have c: "count_list ?nodes ?n = 2" by (simp add: row_def)
  have k: "node_id ?n = 2" by (simp add: row_def)
  note r = flattener_keeps_duplicates [where enc = to_global_id and nodes = ?nodes and n = ?n]
  from r have "length (build_flat_tree to_global_id ?nodes) = length ?nodes" by (rule conjunct1)
  then have l: "length (build_flat_tree to_global_id ?nodes) = 3" by simp
  from r h1 h2
  have "count_list (build_flat_tree to_global_id ?nodes) (flat_of to_global_id ?nodes ?n)
          = count_list ?nodes ?n"
    by blast
  with c
  have c1: "count_list (build_flat_tree to_global_id ?nodes) (flat_of to_global_id ?nodes ?n) = 2"
    by simp
  from r h1 h2 h3 h4 h5
  have "count_list (flat_children (build_flat_tree to_global_id ?nodes ! 0))
          (to_global_id ''AnnotationType'' (node_id ?n)) = count_list ?nodes ?n"
    by blast
  with c k have c2: "count_list (flat_children (build_flat_tree to_global_id ?nodes ! 0))
          (to_global_id ''AnnotationType'' 2) = 2"
    by simp
  from h1 h3 h4 h5 c l c1 c2 show ?thesis by (intro conjI)
qed

text \<open>
  Claim C10, as stated for every input list, fails when the parent has key \<open>0\<close>: on the
  input \<open>[0: null, 5: 0, 5: 0]\<close> the row with key 5 occurs twice, and the children list of
  its parent, the row with key 0, is empty.
\<close>

theorem flattener_keeps_duplicates_counterexample:
  "count_list [row 0 None ''zero'', row 5 (Some 0) ''five'', row 5 (Some 0) ''five'']
     (row 5 (Some 0) ''five'') = 2
   \<and> parent_id (row 5 (Some 0) ''five'')
       = Some (node_id ([row 0 None ''zero'', row 5 (Some 0) ''five'', row 5 (Some 0) ''five''] ! 0))
   \<and> flat_children
        (build_flat_tree to_global_id
           [row 0 None ''zero'', row 5 (Some 0) ''five'', row 5 (Some 0) ''five''] ! 0) = []
   \<and> count_list
        (flat_children
           (build_flat_tree to_global_id
              [row 0 None ''zero'', row 5 (Some 0) ''five'', row 5 (Some 0) ''five''] ! 0))
        (to_global_id ''AnnotationType'' 5) = 0"
proof -
  let ?nodes = "[row 0 None ''zero'', row 5 (Some 0) ''five'', row 5 (Some 0) ''five'']"
  have 1: "count_list ?nodes (row 5 (Some 0) ''five'') = 2" by (simp add: row_def)
  have 2: "parent_id (row 5 (Some 0) ''five'') = Some (node_id (?nodes ! 0))"
    by (simp add: row_def)
  have "id_to_children ?nodes = Map.empty"
    by (simp add: id_to_children_def record_child_def truthy_def row_def)
  then have 3: "flat_children (build_flat_tree to_global_id ?nodes ! 0) = []"
    by (simp add: build_flat_tree_def get_default_def)
  then have 4: "count_list (flat_children (build_flat_tree to_global_id ?nodes ! 0))
                  (to_global_id ''AnnotationType'' 5) = 0"
    by simp
  from 1 2 3 4 show ?thesis by (intro conjI)
qed


section \<open>Properties of the recursive query\<close>

text \<open>
  The working tables of the recursive query are the iterates of \<open>cte_join\<close>. Once one of
  them is empty the query returns all the earlier ones; on an acyclic table one of them
  is empty, and the \<open>k\<close>-th holds the rows \<open>k\<close> parent steps below the rows it started from.
\<close>

lemma cte_join_Nil: "cte_join pop [] = []"
  by (simp add: cte_join_def)

lemma cte_join_append: "cte_join pop (xs @ ys) = cte_join pop xs @ cte_join pop ys"
  by (simp add: cte_join_def)

lemma cte_join_single: "cte_join pop [w] = filter (\<lambda>n. parent_id n = Some (node_id w)) pop"
  by (simp add: cte_join_def)

lemma set_cte_join:
  "set (cte_join pop work) = {n \<in> set pop. \<exists>w \<in> set work. parent_id n = Some (node_id w)}"
  by (auto simp: cte_join_def)

lemma layer_Nil: "(cte_join pop ^^ k) [] = []"
  by (induction k) (simp_all add: cte_join_Nil)

lemma layer_append:
  "(cte_join pop ^^ k) (xs @ ys) = (cte_join pop ^^ k) xs @ (cte_join pop ^^ k) ys"
  by (induction k) (simp_all add: cte_join_append)

lemma layer_empty_mono:
  assumes "(cte_join pop ^^ k) work = []" and "k \<le> k'"
  shows "(cte_join pop ^^ k') work = []"
proof -
  from assms(2) obtain d where "k' = d + k" by (metis le_add_diff_inverse2)
  then have "(cte_join pop ^^ k') work = (cte_join pop ^^ d) ((cte_join pop ^^ k) work)"
    by (simp add: funpow_add)
  with assms(1) show ?thesis by (simp add: layer_Nil)
qed

lemma layer_Suc: "(cte_join pop ^^ Suc k) work = (cte_join pop ^^ k) (cte_join pop work)"
  by (simp add: funpow_swap1)

lemma with_recursive_layers:
  "(cte_join pop ^^ k) work = [] \<Longrightarrow>
   with_recursive pop work = Some (concat (map (\<lambda>i. (cte_join pop ^^ i) work) [0..<k]))"
proof (induction k arbitrary: work)
  case 0
  then show ?case by (simp add: with_recursive.simps)
next
  case (Suc k)
  show ?case
  proof (cases "work = []")
    case True
    then show ?thesis by (simp add: with_recursive.simps layer_Nil del: funpow.simps)
  next
    case False
    from Suc.prems have "(cte_join pop ^^ k) (cte_join pop work) = []"
      by (simp only: layer_Suc)
    then have ih: "with_recursive pop (cte_join pop work)
        = Some (concat (map (\<lambda>i. (cte_join pop ^^ i) (cte_join pop work)) [0..<k]))"
      by (rule Suc.IH)
    have "map (\<lambda>i. (cte_join pop ^^ i) work) [0..<Suc k]
            = work # map (\<lambda>i. (cte_join pop ^^ i) (cte_join pop work)) [0..<k]"
      by (simp only: upt_conv_Cons [of 0 "Suc k"] map_Suc_upt [symmetric] list.map map_map
            comp_def layer_Suc zero_less_Suc funpow_0)
    with False ih show ?thesis
      by (subst with_recursive.simps) simp
  qed
qed

lemma finite_parent_rel: "finite (parent_rel pop)"
proof -
  have "parent_rel pop \<subseteq> (\<lambda>n. (node_id n, the (parent_id n))) ` set pop"
    by (force simp: parent_rel_def)
  then show ?thesis by (rule finite_subset) simp
qed

lemma wf_parent_rel: "acyclic (parent_rel pop) \<Longrightarrow> wf (parent_rel pop)"
  by (simp add: finite_acyclic_wf finite_parent_rel)

lemma wf_parent_rel_converse: "acyclic (parent_rel pop) \<Longrightarrow> wf ((parent_rel pop)\<inverse>)"
  by (simp add: finite_acyclic_wf_converse finite_parent_rel)

lemma parent_relI: "n \<in> set pop \<Longrightarrow> parent_id n = Some p \<Longrightarrow> (node_id n, p) \<in> parent_rel pop"
  by (auto simp: parent_rel_def)

lemma layers_end_list:
  "(\<And>c. c \<in> set cs \<Longrightarrow> \<exists>k. (cte_join pop ^^ k) [c] = []) \<Longrightarrow> \<exists>k. (cte_join pop ^^ k) cs = []"
proof (induction cs)
  case Nil
  show ?case by (rule exI [of _ 0]) simp
next
  case (Cons c cs)
  from Cons.prems obtain k1 where k1: "(cte_join pop ^^ k1) [c] = []" by auto
  from Cons obtain k2 where k2: "(cte_join pop ^^ k2) cs = []" by auto
  have "(cte_join pop ^^ max k1 k2) ([c] @ cs) = []"
    unfolding layer_append
    using layer_empty_mono [OF k1, of "max k1 k2"] layer_empty_mono [OF k2, of "max k1 k2"]
    by simp
  then show ?case by auto
qed

lemma layers_end_single:
  assumes "acyclic (parent_rel pop)"
  shows "\<exists>k. (cte_join pop ^^ k) [w] = []"
proof -
  have "\<forall>w. node_id w = x \<longrightarrow> (\<exists>k. (cte_join pop ^^ k) [w] = [])" for x
  proof (induction x rule: wf_induct_rule [OF wf_parent_rel [OF assms]])
    case (1 x)
    show ?case
    proof (intro allI impI)
      fix w :: RawNode
      assume w: "node_id w = x"
      have "\<exists>k. (cte_join pop ^^ k) [c] = []" if "c \<in> set (cte_join pop [w])" for c
      proof -
        from that w have "c \<in> set pop" "parent_id c = Some x" by (auto simp: set_cte_join)
        then have "(node_id c, x) \<in> parent_rel pop" by (rule parent_relI)
        from 1 [OF this] show ?thesis by simp
      qed
      then obtain k where "(cte_join pop ^^ k) (cte_join pop [w]) = []"
        using layers_end_list by blast
      then have "(cte_join pop ^^ Suc k) [w] = []" by (simp only: layer_Suc)
      then show "\<exists>k. (cte_join pop ^^ k) [w] = []" ..
    qed
  qed
  then show ?thesis by simp
qed

lemma layers_end:
  "acyclic (parent_rel pop) \<Longrightarrow> \<exists>k. (cte_join pop ^^ k) work = []"
  by (rule layers_end_list) (rule layers_end_single)

lemma parent_rel_key: "(c, p) \<in> parent_rel pop \<Longrightarrow> \<exists>n \<in> set pop. node_id n = c"
  by (auto simp: parent_rel_def)

lemma parent_rel_iff:
  assumes "distinct (map node_id pop)" and "n \<in> set pop"
  shows "(node_id n, p) \<in> parent_rel pop \<longleftrightarrow> parent_id n = Some p"
proof
  assume "(node_id n, p) \<in> parent_rel pop"
  then obtain m where m: "m \<in> set pop" "node_id m = node_id n" "parent_id m = Some p"
    by (auto simp: parent_rel_def)
  with assms have "m = n" by (auto intro: same_key_same_row)
  with m show "parent_id n = Some p" by simp
next
  assume "parent_id n = Some p"
  with assms(2) show "(node_id n, p) \<in> parent_rel pop" by (rule parent_relI)
qed

lemma single_valued_parent_rel:
  assumes "distinct (map node_id pop)"
  shows "single_valued (parent_rel pop)"
proof (rule single_valuedI)
  fix x y z
  assume "(x, y) \<in> parent_rel pop" and "(x, z) \<in> parent_rel pop"
  then obtain n m where "n \<in> set pop" "node_id n = x" "parent_id n = Some y"
    "m \<in> set pop" "node_id m = x" "parent_id m = Some z"
    by (auto simp: parent_rel_def)
  moreover with assms have "n = m" by (auto intro: same_key_same_row)
  ultimately show "y = z" by simp
qed

lemma set_layer:
  assumes "distinct (map node_id pop)"
  shows "set ((cte_join pop ^^ Suc k) work)
           = {n \<in> set pop. \<exists>w \<in> set work. (node_id n, node_id w) \<in> parent_rel pop ^^ Suc k}"
proof (induction k)
  case 0
  show ?case
    using parent_rel_iff [OF assms] by (auto simp: set_cte_join)
next
  case (Suc k)
  show ?case (is "?L = ?R")
  proof (intro set_eqI iffI)
    fix n assume "n \<in> ?L"
    then have n: "n \<in> set pop" and "\<exists>m \<in> set ((cte_join pop ^^ Suc k) work). parent_id n = Some (node_id m)"
      by (auto simp: set_cte_join)
    then obtain m where m: "m \<in> set ((cte_join pop ^^ Suc k) work)" "parent_id n = Some (node_id m)"
      by auto
    from m(1) obtain w where w: "w \<in> set work" "(node_id m, node_id w) \<in> parent_rel pop ^^ Suc k"
      unfolding Suc.IH by auto
    from n m(2) have "(node_id n, node_id m) \<in> parent_rel pop" by (rule parent_relI)
    from this w(2) have "(node_id n, node_id w) \<in> parent_rel pop ^^ Suc (Suc k)"
      by (rule relpow_Suc_I2)
    with n w(1) show "n \<in> ?R" by auto
  next
    fix n assume "n \<in> ?R"
    then obtain w where n: "n \<in> set pop" and w: "w \<in> set work"
      and "(node_id n, node_id w) \<in> parent_rel pop ^^ Suc (Suc k)" by auto
    then obtain y where y: "(node_id n, y) \<in> parent_rel pop" "(y, node_id w) \<in> parent_rel pop ^^ Suc k"
      by (blast dest: relpow_Suc_D2)
    from y(2) obtain z where "(y, z) \<in> parent_rel pop" by (blast dest: relpow_Suc_D2)
    then obtain m where m: "m \<in> set pop" "node_id m = y" by (blast dest: parent_rel_key)
    with y(2) w have "m \<in> set ((cte_join pop ^^ Suc k) work)"
      unfolding Suc.IH by auto
    moreover from y(1) n have "parent_id n = Some (node_id m)"
      using parent_rel_iff [OF assms] m(2) by simp
    ultimately show "n \<in> ?L" using n by (auto simp: set_cte_join)
  qed
qed

lemma with_recursive_result:
  assumes "acyclic_population pop"
  shows "\<exists>rows. with_recursive pop work = Some rows
           \<and> set rows = set work \<union> {n \<in> set pop. \<exists>w \<in> set work. (node_id n, node_id w) \<in> (parent_rel pop)\<^sup>+}"
proof -
  from assms have d: "distinct (map node_id pop)" and a: "acyclic (parent_rel pop)"
    by (simp_all add: acyclic_population_def)
  from layers_end [OF a] obtain k where k: "(cte_join pop ^^ k) work = []" by blast
  let ?rows = "concat (map (\<lambda>i. (cte_join pop ^^ i) work) [0..<k])"
  have r: "with_recursive pop work = Some ?rows" by (rule with_recursive_layers [OF k])
  have "set ?rows = set work \<union> {n \<in> set pop. \<exists>w \<in> set work. (node_id n, node_id w) \<in> (parent_rel pop)\<^sup>+}"
    (is "_ = _ \<union> ?D")
  proof (intro set_eqI iffI)
    fix n assume "n \<in> set ?rows"
    then obtain i where i: "i < k" "n \<in> set ((cte_join pop ^^ i) work)" by auto
    show "n \<in> set work \<union> ?D"
    proof (cases i)
      case 0
      with i show ?thesis by simp
    next
      case (Suc j)
      with i have "n \<in> set ((cte_join pop ^^ Suc j) work)" by (simp only:)
      then obtain w where "n \<in> set pop" "w \<in> set work"
        "(node_id n, node_id w) \<in> parent_rel pop ^^ Suc j"
        unfolding set_layer [OF d] by blast
      moreover then have "(node_id n, node_id w) \<in> (parent_rel pop)\<^sup>+"
        unfolding trancl_power by blast
      ultimately show ?thesis by auto
    qed
  next
    fix n assume "n \<in> set work \<union> ?D"
    then show "n \<in> set ?rows"
    proof
      assume n: "n \<in> set work"
      then have "work \<noteq> []" by auto
      with k have "0 < k" by (cases k) auto
      with n show ?thesis by (auto intro!: bexI [of _ 0])
    next
      assume "n \<in> ?D"
      then obtain w i where n: "n \<in> set pop" "w \<in> set work" "0 < i"
        "(node_id n, node_id w) \<in> parent_rel pop ^^ i"
        unfolding trancl_power by auto
      then obtain j where j: "i = Suc j" by (cases i) auto
      with n have in_layer: "n \<in> set ((cte_join pop ^^ i) work)"
        unfolding j set_layer [OF d] by blast
      have "i < k"
      proof (rule ccontr)
        assume "\<not> i < k"
        then have "(cte_join pop ^^ i) work = []"
          using layer_empty_mono [OF k, of i] by simp
        with in_layer show False by simp
      qed
      with in_layer show ?thesis by auto
    qed
  qed
  with r show ?thesis by blast
qed

lemma distinct_cte_join:
  assumes "distinct pop"
  shows "distinct (map node_id work) \<Longrightarrow> distinct (cte_join pop work)"
proof (induction work)
  case Nil
  show ?case by (simp add: cte_join_Nil)
next
  case (Cons w work)
  have "cte_join pop (w # work) = cte_join pop [w] @ cte_join pop work"
    using cte_join_append [of pop "[w]" work] by simp
  moreover have "distinct (cte_join pop [w])"
    using assms by (simp add: cte_join_single)
  moreover have "distinct (cte_join pop work)"
    using Cons by simp
  moreover have "set (cte_join pop [w]) \<inter> set (cte_join pop work) = {}"
  proof (rule ccontr)
    assume "\<not> ?thesis"
    then obtain x where x1: "x \<in> set (cte_join pop [w])" and x2: "x \<in> set (cte_join pop work)"
      by blast
    from x1 have p: "parent_id x = Some (node_id w)" by (simp add: set_cte_join)
    from x2 obtain v where v: "v \<in> set work" "parent_id x = Some (node_id v)"
      unfolding set_cte_join by blast
    from v(1) have "node_id v \<in> node_id ` set work" by (rule imageI)
    moreover from p v(2) have "node_id v = node_id w" by simp
    ultimately show False using Cons.prems by simp
  qed
  ultimately show ?case by simp
qed

lemma distinct_keys_rows:
  assumes "distinct (map node_id pop)" and "distinct xs" and "set xs \<subseteq> set pop"
  shows "distinct (map node_id xs)"
proof -
  from assms(1) have "inj_on node_id (set pop)" by (simp add: distinct_map)
  from this assms(3) have "inj_on node_id (set xs)" by (rule inj_on_subset)
  with assms(2) show ?thesis by (simp add: distinct_map)
qed

lemma layer_distinct:
  assumes "distinct (map node_id pop)" and "distinct (map node_id work)"
  shows "distinct (map node_id ((cte_join pop ^^ k) work))"
proof (induction k)
  case 0
  from assms(2) show ?case by simp
next
  case (Suc k)
  from assms(1) have "distinct pop" by (simp add: distinct_map)
  then have "distinct (cte_join pop ((cte_join pop ^^ k) work))"
    using Suc by (rule distinct_cte_join)
  moreover have "set (cte_join pop ((cte_join pop ^^ k) work)) \<subseteq> set pop"
    by (auto simp: set_cte_join)
  ultimately have "distinct (map node_id (cte_join pop ((cte_join pop ^^ k) work)))"
    by (rule distinct_keys_rows [OF assms(1)])
  then show ?case by simp
qed

lemma layer_single_key:
  assumes "distinct (map node_id pop)" and "n \<in> set ((cte_join pop ^^ k) [w])"
  shows "(node_id n, node_id w) \<in> parent_rel pop ^^ k"
proof (cases k)
  case 0
  with assms(2) show ?thesis by simp
next
  case (Suc j)
  with assms(2) have "n \<in> set ((cte_join pop ^^ Suc j) [w])" by (simp only:)
  then show ?thesis unfolding Suc set_layer [OF assms(1)] by simp
qed

lemma no_loop:
  assumes "acyclic r" and "0 < d"
  shows "(x, x) \<notin> r ^^ d"
proof
  assume "(x, x) \<in> r ^^ d"
  with assms(2) have "(x, x) \<in> r\<^sup>+" unfolding trancl_power by blast
  with assms(1) show False by (simp add: acyclic_def)
qed

lemma layers_disjoint:
  assumes "acyclic_population pop" and "i < j"
  shows "node_id ` set ((cte_join pop ^^ i) [w]) \<inter> node_id ` set ((cte_join pop ^^ j) [w]) = {}"
proof (rule ccontr)
  from assms(1) have d: "distinct (map node_id pop)" and a: "acyclic (parent_rel pop)"
    by (simp_all add: acyclic_population_def)
  assume "\<not> ?thesis"
  then obtain n m where n: "n \<in> set ((cte_join pop ^^ i) [w])"
    and m: "m \<in> set ((cte_join pop ^^ j) [w])" and nm: "node_id n = node_id m" by blast
  from n have xi: "(node_id n, node_id w) \<in> parent_rel pop ^^ i"
    by (rule layer_single_key [OF d])
  from m have "(node_id m, node_id w) \<in> parent_rel pop ^^ j"
    by (rule layer_single_key [OF d])
  then have xj: "(node_id n, node_id w) \<in> parent_rel pop ^^ j"
    by (simp only: nm)
  from assms(2) have "j = i + Suc (j - Suc i)" by simp
  then obtain e where e: "j = i + Suc e" ..
  from xj obtain y where y: "(node_id n, y) \<in> parent_rel pop ^^ i" "(y, node_id w) \<in> parent_rel pop ^^ Suc e"
    unfolding e relpow_add by blast
  have "single_valued (parent_rel pop ^^ i)"
    by (rule single_valued_relpow) (rule single_valued_parent_rel [OF d])
  from this y(1) xi have "y = node_id w" by (rule single_valuedD)
  with y(2) have "(node_id w, node_id w) \<in> parent_rel pop ^^ Suc e" by (simp only:)
  moreover have "(node_id w, node_id w) \<notin> parent_rel pop ^^ Suc e"
    by (rule no_loop [OF a]) simp
  ultimately show False by blast
qed

lemma distinct_concat_upt:
  assumes "\<And>i. i < k \<Longrightarrow> distinct (g i)"
    and "\<And>i j. i < j \<Longrightarrow> j < k \<Longrightarrow> set (g i) \<inter> set (g j) = {}"
  shows "distinct (concat (map g [0..<k]))"
  using assms
proof (induction k)
  case 0
  show ?case by simp
next
  case (Suc k)
  have "distinct (concat (map g [0..<k]))"
  proof (rule Suc.IH)
    fix i assume "i < k"
    then show "distinct (g i)" by (simp add: Suc.prems(1))
  next
    fix i j assume "i < j" "j < k"
    then show "set (g i) \<inter> set (g j) = {}" by (simp add: Suc.prems(2))
  qed
  moreover have "distinct (g k)" by (rule Suc.prems(1)) simp
  moreover have "set (concat (map g [0..<k])) \<inter> set (g k) = {}"
  proof (rule ccontr)
    assume "\<not> ?thesis"
    then obtain x i where "i < k" "x \<in> set (g i)" "x \<in> set (g k)" by auto
    with Suc.prems(2) [of i k] show False by blast
  qed
  ultimately show ?case by simp
qed

lemma with_recursive_single:
  assumes "acyclic_population pop"
  shows "\<exists>rows. with_recursive pop [w] = Some rows
           \<and> set rows = insert w {n \<in> set pop. (node_id n, node_id w) \<in> (parent_rel pop)\<^sup>+}
           \<and> distinct (map node_id rows)"
proof -
  from assms have d: "distinct (map node_id pop)" and a: "acyclic (parent_rel pop)"
    by (simp_all add: acyclic_population_def)
  from layers_end [OF a] obtain k where k: "(cte_join pop ^^ k) [w] = []" by blast
  let ?L = "\<lambda>i. (cte_join pop ^^ i) [w]"
  let ?rows = "concat (map ?L [0..<k])"
  have r: "with_recursive pop [w] = Some ?rows" by (rule with_recursive_layers [OF k])
  from with_recursive_result [OF assms, of "[w]"] obtain rows' where
    "with_recursive pop [w] = Some rows'"
    "set rows' = set [w] \<union> {n \<in> set pop. \<exists>v \<in> set [w]. (node_id n, node_id v) \<in> (parent_rel pop)\<^sup>+}"
    by blast
  with r have "set ?rows = set [w] \<union> {n \<in> set pop. \<exists>v \<in> set [w]. (node_id n, node_id v) \<in> (parent_rel pop)\<^sup>+}"
    by (simp only: option.inject)
  then have s: "set ?rows = insert w {n \<in> set pop. (node_id n, node_id w) \<in> (parent_rel pop)\<^sup>+}"
    by simp
  have "map node_id ?rows = concat (map (\<lambda>i. map node_id (?L i)) [0..<k])"
    by (simp add: map_concat comp_def)
  moreover have "distinct (concat (map (\<lambda>i. map node_id (?L i)) [0..<k]))"
  proof (rule distinct_concat_upt)
    fix i show "distinct (map node_id (?L i))"
      by (rule layer_distinct [OF d]) simp
  next
    fix i j :: nat assume "i < j"
    then show "set (map node_id (?L i)) \<inter> set (map node_id (?L j)) = {}"
      using layers_disjoint [OF assms, of i j w] by simp
  qed
  ultimately have "distinct (map node_id ?rows)" by simp
  with r s show ?thesis by blast
qed


section \<open>Properties of the resolvers\<close>

lemma acyclic_population_ordered:
  assumes "distinct (map node_id pop)"
    and "\<And>n p. n \<in> set pop \<Longrightarrow> parent_id n = Some p \<Longrightarrow> p < node_id n"
  shows "acyclic_population pop"
proof -
  have "acyclic (parent_rel pop)"
  proof (rule acyclicI_order [where f = "\<lambda>x. x"])
    fix a b assume "(a, b) \<in> parent_rel pop"
    then show "b < a" using assms(2) by (auto simp: parent_rel_def)
  qed
  with assms(1) show ?thesis by (simp add: acyclic_population_def)
qed

lemma acyclic_population_scenario: "acyclic_population scenario"
  by (rule acyclic_population_ordered) (auto simp: scenario_def row_def)

lemma parents_present_scenario: "parents_present scenario"
  by (simp add: parents_present_def scenario_def row_def)

lemma descendants_of_no_self:
  assumes "acyclic_population pop"
  shows "node_id n = i \<Longrightarrow> n \<notin> descendants_of pop i"
proof
  assume "node_id n = i" and "n \<in> descendants_of pop i"
  then have "(i, i) \<in> (parent_rel pop)\<^sup>+" by (simp add: descendants_of_def)
  with assms show False by (simp add: acyclic_population_def acyclic_def)
qed

lemma get_descendants_result:
  assumes "acyclic_population pop"
  shows "\<exists>rows. get_descendants pop i = Some rows
           \<and> set rows = descendants_of pop i
           \<and> distinct (map node_id rows)"
proof -
  let ?w = "row i None []"
  have key: "node_id ?w = i" by (simp add: row_def)
  from with_recursive_single [OF assms, of ?w] obtain all_rows where
    r: "with_recursive pop [?w] = Some all_rows"
    and s: "set all_rows = insert ?w (descendants_of pop i)"
    and d: "distinct (map node_id all_rows)"
    unfolding key descendants_of_def by blast
  have base: "cte_join pop [?w] = filter (\<lambda>n. parent_id n = Some i) pop"
    by (simp add: cte_join_single key)
  from r obtain rest where rest: "get_descendants pop i = Some rest" "all_rows = ?w # rest"
    by (subst (asm) with_recursive.simps)
       (auto simp: base get_descendants_def split: bind_splits)
  from d rest(2) have d': "distinct (map node_id rest)" and "i \<notin> node_id ` set rest"
    by (simp_all add: key)
  then have "?w \<notin> set rest" using key by force
  moreover have "?w \<notin> descendants_of pop i"
    by (rule descendants_of_no_self [OF assms key])
  moreover from s rest(2) have "insert ?w (set rest) = insert ?w (descendants_of pop i)"
    by simp
  ultimately have "set rest = descendants_of pop i"
    by (metis insert_ident)
  with rest(1) d' show ?thesis by blast
qed

lemma set_order_by_id: "set (order_by_id rows) = set rows"
  by (simp add: order_by_id_def)

lemma sorted_order_by_id: "sorted (map node_id (order_by_id rows))"
  by (simp add: order_by_id_def)

lemma distinct_order_by_id: "distinct (map node_id (order_by_id rows)) = distinct (map node_id rows)"
proof -
  have "mset (map node_id (order_by_id rows)) = mset (map node_id rows)"
    by (simp add: order_by_id_def)
  then show ?thesis by (rule mset_eq_imp_distinct_iff)
qed

lemma length_order_by_id: "length (order_by_id rows) = length rows"
  by (simp add: order_by_id_def)

subsection \<open>Descendants\<close>

text \<open>
  Claim C3. On an acyclic population the descendants query returns, and the rows it
  returns are exactly the rows that reach \<open>N\<close> by one or more parent steps, that is the
  children of \<open>N\<close>, their children and so on. The key of \<open>N\<close> is not among them. The
  resolver returns the flat tree of these rows.
\<close>

theorem descendants_exact:
  assumes "acyclic_population pop"
  shows "\<exists>rows. descendants_list pop self = Some rows
           \<and> resolve_descendants_tree enc pop self = Some (Inr (build_flat_tree enc rows))
           \<and> set rows = descendants_of pop (node_id self)
           \<and> node_id self \<notin> node_id ` set rows"
proof -
  from get_descendants_result [OF assms, of "node_id self"] obtain rows where
    r: "get_descendants pop (node_id self) = Some rows"
    and s: "set rows = descendants_of pop (node_id self)" by blast
  let ?rows = "order_by_id rows"
  have 1: "descendants_list pop self = Some ?rows"
    by (simp add: descendants_list_def r)
  then have 2: "resolve_descendants_tree enc pop self = Some (Inr (build_flat_tree enc ?rows))"
    by (simp add: resolve_descendants_tree_def)
  have 3: "set ?rows = descendants_of pop (node_id self)"
    by (simp add: set_order_by_id s)
  have "node_id self \<notin> node_id ` set ?rows"
  proof
    assume "node_id self \<in> node_id ` set ?rows"
    then obtain n where "n \<in> descendants_of pop (node_id self)" "node_id n = node_id self"
      unfolding 3 by auto
    with descendants_of_no_self [OF assms, of n "node_id self"] show False by simp
  qed
  with 1 2 3 show ?thesis by blast
qed

lemma descendants_list_scenario_1:
  "descendants_list scenario (row 1 None ''one'')
     = Some [row 2 (Some 1) ''two'', row 3 (Some 1) ''three'', row 4 (Some 2) ''four'']"
  by (simp add: descendants_list_def get_descendants_def order_by_id_def with_recursive.simps
        cte_join_def scenario_def row_def)

theorem descendants_exact_witness:
  "acyclic_population scenario
   \<and> descendants_list scenario (row 1 None ''one'')
       = Some [row 2 (Some 1) ''two'', row 3 (Some 1) ''three'', row 4 (Some 2) ''four'']
   \<and> descendants_of scenario 1
       = {row 2 (Some 1) ''two'', row 3 (Some 1) ''three'', row 4 (Some 2) ''four''}
   \<and> 1 \<notin> node_id ` descendants_of scenario 1"
proof -
  have k: "node_id (row 1 None ''one'') = 1" by (simp add: row_def)
  from descendants_exact [OF acyclic_population_scenario, of "row 1 None ''one''" to_global_id]
  obtain rows where "descendants_list scenario (row 1 None ''one'') = Some rows"
    and s: "set rows = descendants_of scenario 1" and n: "1 \<notin> node_id ` set rows"
    unfolding k by blast
  then have "rows = [row 2 (Some 1) ''two'', row 3 (Some 1) ''three'', row 4 (Some 2) ''four'']"
    by (simp add: descendants_list_scenario_1)
  with s have "descendants_of scenario 1
       = {row 2 (Some 1) ''two'', row 3 (Some 1) ''three'', row 4 (Some 2) ''four''}"
    by auto
  moreover from n s have "1 \<notin> node_id ` descendants_of scenario 1" by simp
  ultimately show ?thesis
    using acyclic_population_scenario descendants_list_scenario_1 by blast
qed


subsection \<open>The walk to the root ancestor\<close>

text \<open>
  On an acyclic population whose parent references all name a row, the two loops that
  follow \<^verbatim>\<open>node.parent\<close> end at a row without parent, and the rows they visit are the rows
  reachable from the start by parent steps.
\<close>

lemma objects_get_present:
  "p \<in> node_id ` set pop \<Longrightarrow>
   \<exists>par. objects_get pop p = Some par \<and> par \<in> set pop \<and> node_id par = p"
  unfolding objects_get_def by (induction pop) auto

lemma parent_present:
  assumes "parents_present pop" and "n \<in> set pop" and "parent_id n = Some p"
  shows "\<exists>par. objects_get pop p = Some par \<and> par \<in> set pop \<and> node_id par = p"
proof -
  from assms have "p \<in> node_id ` set pop"
    unfolding parents_present_def by (metis option.simps(5))
  then show ?thesis by (rule objects_get_present)
qed

lemma up_set_root:
  assumes "distinct (map node_id pop)" and "n \<in> set pop" and "parent_id n = None"
  shows "{x. (node_id n, x) \<in> (parent_rel pop)\<^sup>*} = {node_id n}"
proof -
  have "x = node_id n" if "(node_id n, x) \<in> (parent_rel pop)\<^sup>*" for x
    using that
  proof (cases rule: converse_rtranclE)
    case base
    then show ?thesis by simp
  next
    case (step y)
    then have "parent_id n = Some y" using parent_rel_iff [OF assms(1,2)] by simp
    with assms(3) show ?thesis by simp
  qed
  then show ?thesis by auto
qed

lemma up_set_step:
  assumes "distinct (map node_id pop)" and "n \<in> set pop" and "parent_id n = Some p"
  shows "{x. (node_id n, x) \<in> (parent_rel pop)\<^sup>*}
           = insert (node_id n) {x. (p, x) \<in> (parent_rel pop)\<^sup>*}"
proof (intro set_eqI iffI)
  fix x assume "x \<in> {x. (node_id n, x) \<in> (parent_rel pop)\<^sup>*}"
  then have "(node_id n, x) \<in> (parent_rel pop)\<^sup>*" by simp
  then show "x \<in> insert (node_id n) {x. (p, x) \<in> (parent_rel pop)\<^sup>*}"
  proof (cases rule: converse_rtranclE)
    case base
    then show ?thesis by simp
  next
    case (step y)
    then have "parent_id n = Some y" using parent_rel_iff [OF assms(1,2)] by simp
    with assms(3) step show ?thesis by simp
  qed
next
  fix x assume "x \<in> insert (node_id n) {x. (p, x) \<in> (parent_rel pop)\<^sup>*}"
  moreover from assms(2,3) have "(node_id n, p) \<in> parent_rel pop" by (rule parent_relI)
  ultimately show "x \<in> {x. (node_id n, x) \<in> (parent_rel pop)\<^sup>*}"
    by (auto intro: converse_rtrancl_into_rtrancl)
qed

lemma root_ancestor_result:
  assumes "acyclic_population pop" and "parents_present pop" and "n \<in> set pop"
  shows "\<exists>r. root_ancestor pop n = Some (Inr r) \<and> r \<in> set pop \<and> parent_id r = None
           \<and> (node_id n, node_id r) \<in> (parent_rel pop)\<^sup>*"
proof -
  from assms(1) have a: "acyclic (parent_rel pop)" by (simp add: acyclic_population_def)
  have "\<forall>n \<in> set pop. node_id n = x \<longrightarrow>
          (\<exists>r. root_ancestor pop n = Some (Inr r) \<and> r \<in> set pop \<and> parent_id r = None
             \<and> (node_id n, node_id r) \<in> (parent_rel pop)\<^sup>*)" for x
  proof (induction x rule: wf_induct_rule [OF wf_parent_rel_converse [OF a]])
    case (1 x)
    show ?case
    proof (intro ballI impI)
      fix n assume n: "n \<in> set pop" "node_id n = x"
      show "\<exists>r. root_ancestor pop n = Some (Inr r) \<and> r \<in> set pop \<and> parent_id r = None
             \<and> (node_id n, node_id r) \<in> (parent_rel pop)\<^sup>*"
      proof (cases "parent_id n")
        case None
        then have "root_ancestor pop n = Some (Inr n)"
          by (subst root_ancestor.simps) simp
        with n None show ?thesis by blast
      next
        case (Some p)
        from parent_present [OF assms(2) n(1) Some] obtain par where
          par: "objects_get pop p = Some par" "par \<in> set pop" "node_id par = p" by blast
        from n(1) Some have e: "(node_id n, p) \<in> parent_rel pop" by (rule parent_relI)
        with n(2) have "(p, x) \<in> (parent_rel pop)\<inverse>" by simp
        from 1 [OF this] par obtain r where
          r: "root_ancestor pop par = Some (Inr r)" "r \<in> set pop" "parent_id r = None"
            "(p, node_id r) \<in> (parent_rel pop)\<^sup>*" by blast
        have "root_ancestor pop n = root_ancestor pop par"
          by (subst root_ancestor.simps) (simp add: Some par(1))
        moreover from e r(4) have "(node_id n, node_id r) \<in> (parent_rel pop)\<^sup>*"
          by (rule converse_rtrancl_into_rtrancl)
        ultimately show ?thesis using r by auto
      qed
    qed
  qed
  with assms(3) show ?thesis by blast
qed

lemma collect_ancestors_result:
  assumes "acyclic_population pop" and "parents_present pop" and "n \<in> set pop"
  shows "\<exists>path. collect_ancestors pop acc n = Some (Inr (acc @ path))
           \<and> node_id ` set path = {x. (node_id n, x) \<in> (parent_rel pop)\<^sup>*}
           \<and> set path \<subseteq> set pop"
proof -
  from assms(1) have a: "acyclic (parent_rel pop)" and d: "distinct (map node_id pop)"
    by (simp_all add: acyclic_population_def)
  have "\<forall>n \<in> set pop. node_id n = x \<longrightarrow>
          (\<forall>acc. \<exists>path. collect_ancestors pop acc n = Some (Inr (acc @ path))
             \<and> node_id ` set path = {x. (node_id n, x) \<in> (parent_rel pop)\<^sup>*}
             \<and> set path \<subseteq> set pop)" for x
  proof (induction x rule: wf_induct_rule [OF wf_parent_rel_converse [OF a]])
    case (1 x)
    show ?case
    proof (intro ballI impI allI)
      fix n acc assume n: "n \<in> set pop" "node_id n = x"
      show "\<exists>path. collect_ancestors pop acc n = Some (Inr (acc @ path))
             \<and> node_id ` set path = {x. (node_id n, x) \<in> (parent_rel pop)\<^sup>*}
             \<and> set path \<subseteq> set pop"
      proof (cases "parent_id n")
        case None
        then have "collect_ancestors pop acc n = Some (Inr (acc @ [n]))"
          by (subst collect_ancestors.simps) simp
        moreover have "node_id ` set [n] = {x. (node_id n, x) \<in> (parent_rel pop)\<^sup>*}"
          by (simp add: up_set_root [OF d n(1) None])
        ultimately show ?thesis using n(1) by (intro exI [of _ "[n]"]) simp
      next
        case (Some p)
        from parent_present [OF assms(2) n(1) Some] obtain par where
          par: "objects_get pop p = Some par" "par \<in> set pop" "node_id par = p" by blast
        from n(1) Some have "(node_id n, p) \<in> parent_rel pop" by (rule parent_relI)
        with n(2) have "(p, x) \<in> (parent_rel pop)\<inverse>" by simp
        from 1 [OF this] par obtain path where
          path: "collect_ancestors pop (acc @ [n]) par = Some (Inr ((acc @ [n]) @ path))"
            "node_id ` set path = {x. (p, x) \<in> (parent_rel pop)\<^sup>*}" "set path \<subseteq> set pop"
          by blast
        have "collect_ancestors pop acc n = collect_ancestors pop (acc @ [n]) par"
          by (subst collect_ancestors.simps) (simp add: Some par(1))
        with path(1) have "collect_ancestors pop acc n = Some (Inr (acc @ n # path))" by simp
        moreover have "node_id ` set (n # path) = {x. (node_id n, x) \<in> (parent_rel pop)\<^sup>*}"
          by (simp add: up_set_step [OF d n(1) Some] path(2))
        moreover have "set (n # path) \<subseteq> set pop" using n(1) path(3) by simp
        ultimately show ?thesis by blast
      qed
    qed
  qed
  with assms(3) show ?thesis by blast
qed

lemma filter_key_single:
  "distinct (map node_id pop) \<Longrightarrow> r \<in> set pop \<Longrightarrow> filter (\<lambda>n. node_id n = node_id r) pop = [r]"
proof (induction pop)
  case Nil
  then show ?case by simp
next
  case (Cons a pop)
  show ?case
  proof (cases "a = r")
    case True
    with Cons.prems have "\<forall>n \<in> set pop. node_id n \<noteq> node_id r"
      by (auto simp: image_iff)
    then have "filter (\<lambda>n. node_id n = node_id r) pop = []" by (simp add: filter_empty_conv)
    with True show ?thesis by simp
  next
    case False
    with Cons.prems have "r \<in> set pop" "node_id a \<noteq> node_id r"
      by (auto simp: image_iff)
    with Cons show ?thesis by simp
  qed
qed


subsection \<open>Full tree and subtree\<close>

lemma full_tree_rows:
  assumes "acyclic_population pop" and "root \<in> set pop"
  shows "\<exists>rows. with_recursive pop (filter (\<lambda>n. node_id n = node_id root) pop) = Some rows
           \<and> set rows = insert root (descendants_of pop (node_id root))
           \<and> distinct (map node_id rows)"
proof -
  from assms(1) have d: "distinct (map node_id pop)" by (simp add: acyclic_population_def)
  have "filter (\<lambda>n. node_id n = node_id root) pop = [root]"
    by (rule filter_key_single [OF d assms(2)])
  with with_recursive_single [OF assms(1), of root] show ?thesis
    by (simp add: descendants_of_def)
qed

text \<open>
  Claim C5. On an acyclic population whose parent references all name a row, the full tree
  of a row \<open>N\<close> of the table is computed as follows: the walk along the parent references
  ends at a row without parent, the true root, which is \<open>N\<close> itself when \<open>N\<close> has no parent;
  the query then returns the true root together with all rows below it. The true root is
  in the result in every case.
\<close>

theorem full_tree_contains_root:
  assumes "acyclic_population pop" and "parents_present pop" and "self \<in> set pop"
  shows "\<exists>root rows.
           root_ancestor pop self = Some (Inr root)
           \<and> root \<in> set pop \<and> parent_id root = None
           \<and> (node_id self, node_id root) \<in> (parent_rel pop)\<^sup>*
           \<and> (parent_id self = None \<longrightarrow> root = self)
           \<and> full_tree_nodes pop self = Some (Inr rows)
           \<and> resolve_full_tree enc pop self = Some (Inr (build_flat_tree enc rows))
           \<and> set rows = insert root (descendants_of pop (node_id root))
           \<and> root \<in> set rows"
proof -
  from root_ancestor_result [OF assms] obtain root where
    r: "root_ancestor pop self = Some (Inr root)" "root \<in> set pop" "parent_id root = None"
      "(node_id self, node_id root) \<in> (parent_rel pop)\<^sup>*" by blast
  from full_tree_rows [OF assms(1) r(2)] obtain rows where
    rows: "with_recursive pop (filter (\<lambda>n. node_id n = node_id root) pop) = Some rows"
      "set rows = insert root (descendants_of pop (node_id root))" by blast
  let ?rows = "order_by_id rows"
  have 1: "full_tree_nodes pop self = Some (Inr ?rows)"
    by (simp add: full_tree_nodes_def r(1) rows(1))
  then have 2: "resolve_full_tree enc pop self = Some (Inr (build_flat_tree enc ?rows))"
    by (simp add: resolve_full_tree_def)
  have 3: "set ?rows = insert root (descendants_of pop (node_id root))"
    by (simp add: set_order_by_id rows(2))
  have 4: "parent_id self = None \<longrightarrow> root = self"
  proof
    assume "parent_id self = None"
    then have "root_ancestor pop self = Some (Inr self)"
      by (subst root_ancestor.simps) simp
    with r(1) show "root = self" by simp
  qed
  from 3 have 5: "root \<in> set ?rows" by simp
  show ?thesis
  proof (intro exI conjI)
    show "root_ancestor pop self = Some (Inr root)" by (rule r(1))
    show "root \<in> set pop" by (rule r(2))
    show "parent_id root = None" by (rule r(3))
    show "(node_id self, node_id root) \<in> (parent_rel pop)\<^sup>*" by (rule r(4))
    show "parent_id self = None \<longrightarrow> root = self" by (rule 4)
    show "full_tree_nodes pop self = Some (Inr ?rows)" by (rule 1)
    show "resolve_full_tree enc pop self = Some (Inr (build_flat_tree enc ?rows))" by (rule 2)
    show "set ?rows = insert root (descendants_of pop (node_id root))" by (rule 3)
    show "root \<in> set ?rows" by (rule 5)
  qed
qed

lemma root_ancestor_scenario_4:
  "root_ancestor scenario (row 4 (Some 2) ''four'') = Some (Inr (row 1 None ''one''))"
  by (simp add: root_ancestor.simps objects_get_def scenario_def row_def)

lemma full_tree_nodes_scenario_4:
  "full_tree_nodes scenario (row 4 (Some 2) ''four'') = Some (Inr scenario)"
  by (simp add: full_tree_nodes_def root_ancestor_scenario_4)
     (simp add: order_by_id_def with_recursive.simps cte_join_def scenario_def row_def)

theorem full_tree_contains_root_witness:
  "acyclic_population scenario \<and> parents_present scenario
   \<and> row 4 (Some 2) ''four'' \<in> set scenario
   \<and> root_ancestor scenario (row 4 (Some 2) ''four'') = Some (Inr (row 1 None ''one''))
   \<and> full_tree_nodes scenario (row 4 (Some 2) ''four'') = Some (Inr scenario)
   \<and> set scenario = insert (row 1 None ''one'') (descendants_of scenario 1)
   \<and> row 1 None ''one'' \<in> set scenario"
proof -
  have h3: "row 4 (Some 2) ''four'' \<in> set scenario" by (simp add: scenario_def)
  have k: "node_id (row 1 None ''one'') = 1" by (simp add: row_def)
  from full_tree_contains_root [OF acyclic_population_scenario parents_present_scenario h3,
    of to_global_id]
  obtain root rows where "root_ancestor scenario (row 4 (Some 2) ''four'') = Some (Inr root)"
    and "full_tree_nodes scenario (row 4 (Some 2) ''four'') = Some (Inr rows)"
    and s: "set rows = insert root (descendants_of scenario (node_id root))"
    and i: "root \<in> set rows"
    by blast
  then have "root = row 1 None ''one''" and "rows = scenario"
    by (simp_all add: root_ancestor_scenario_4 full_tree_nodes_scenario_4)
  with s i k have "set scenario = insert (row 1 None ''one'') (descendants_of scenario 1)"
    and "row 1 None ''one'' \<in> set scenario" by simp_all
  with acyclic_population_scenario parents_present_scenario h3 root_ancestor_scenario_4
    full_tree_nodes_scenario_4
  show ?thesis by blast
qed

lemma ancestor_rows:
  assumes "node_id ` set path = {x. (i, x) \<in> (parent_rel pop)\<^sup>*}"
  shows "set (filter (\<lambda>n. node_id n \<in> set (map node_id path)) pop) = ancestor_path pop i"
  using assms by (auto simp: ancestor_path_def)

lemma up_down_disjoint:
  assumes "acyclic_population pop"
  shows "node_id ` ancestor_path pop i \<inter> node_id ` descendants_of pop i = {}"
proof (rule ccontr)
  assume "\<not> ?thesis"
  then obtain n m where "n \<in> ancestor_path pop i" "m \<in> descendants_of pop i"
    "node_id n = node_id m" by blast
  then have "(i, node_id n) \<in> (parent_rel pop)\<^sup>*" "(node_id n, i) \<in> (parent_rel pop)\<^sup>+"
    by (simp_all add: ancestor_path_def descendants_of_def)
  then have "(i, i) \<in> (parent_rel pop)\<^sup>+" by (rule rtrancl_trancl_trancl)
  with assms show False by (simp add: acyclic_population_def acyclic_def)
qed

text \<open>
  Claim C1. On an acyclic population whose parent references all name a row, the subtree of
  a row \<open>N\<close> of the table is the union of the ancestor path of \<open>N\<close>, from \<open>N\<close> itself up to
  the row without parent, and of the descendants of \<open>N\<close>, without \<open>N\<close>. Every key occurs
  once in the list of rows handed to the flattener: the two halves have no key in common,
  so the union that keeps duplicates has none to keep.
\<close>

theorem subtree_exact:
  assumes "acyclic_population pop" and "parents_present pop" and "self \<in> set pop"
  shows "\<exists>rows.
           subtree_nodes pop self = Some (Inr rows)
           \<and> resolve_subtree enc pop self = Some (Inr (build_flat_tree enc rows))
           \<and> set rows = ancestor_path pop (node_id self) \<union> descendants_of pop (node_id self)
           \<and> distinct (map node_id rows)
           \<and> self \<in> ancestor_path pop (node_id self)
           \<and> self \<notin> descendants_of pop (node_id self)
           \<and> (\<exists>root \<in> ancestor_path pop (node_id self). parent_id root = None)"
proof -
  from assms(1) have d: "distinct (map node_id pop)" by (simp add: acyclic_population_def)
  from collect_ancestors_result [OF assms, of "[]"] obtain path where
    p: "collect_ancestors pop [] self = Some (Inr path)"
      "node_id ` set path = {x. (node_id self, x) \<in> (parent_rel pop)\<^sup>*}" by auto
  from get_descendants_result [OF assms(1), of "node_id self"] obtain desc where
    g: "get_descendants pop (node_id self) = Some desc"
      "set desc = descendants_of pop (node_id self)" "distinct (map node_id desc)" by blast
  let ?anc = "filter (\<lambda>n. node_id n \<in> set (map node_id path)) pop"
  let ?rows = "?anc @ desc"
  have 1: "subtree_nodes pop self = Some (Inr ?rows)"
    by (simp add: subtree_nodes_def p(1) g(1))
  then have 2: "resolve_subtree enc pop self = Some (Inr (build_flat_tree enc ?rows))"
    by (simp add: resolve_subtree_def)
  have a: "set ?anc = ancestor_path pop (node_id self)"
    by (rule ancestor_rows [OF p(2)])
  with g(2) have 3: "set ?rows = ancestor_path pop (node_id self) \<union> descendants_of pop (node_id self)"
    by simp
  have "distinct (map node_id ?anc)"
    using d by (rule distinct_map_filter)
  moreover have "node_id ` set ?anc \<inter> node_id ` set desc = {}"
    unfolding a g(2) by (rule up_down_disjoint [OF assms(1)])
  ultimately have 4: "distinct (map node_id ?rows)"
    using g(3) by simp
  have 5: "self \<in> ancestor_path pop (node_id self)"
    using assms(3) by (simp add: ancestor_path_def)
  have 6: "self \<notin> descendants_of pop (node_id self)"
    by (rule descendants_of_no_self [OF assms(1)]) simp
  from root_ancestor_result [OF assms] obtain root where
    "root \<in> set pop" "parent_id root = None"
    "(node_id self, node_id root) \<in> (parent_rel pop)\<^sup>*" by blast
  then have 7: "\<exists>root \<in> ancestor_path pop (node_id self). parent_id root = None"
    by (auto simp: ancestor_path_def)
  show ?thesis
  proof (intro exI conjI)
    show "subtree_nodes pop self = Some (Inr ?rows)" by (rule 1)
    show "resolve_subtree enc pop self = Some (Inr (build_flat_tree enc ?rows))" by (rule 2)
    show "set ?rows = ancestor_path pop (node_id self) \<union> descendants_of pop (node_id self)"
      by (rule 3)
    show "distinct (map node_id ?rows)" by (rule 4)
    show "self \<in> ancestor_path pop (node_id self)" by (rule 5)
    show "self \<notin> descendants_of pop (node_id self)" by (rule 6)
    show "\<exists>root \<in> ancestor_path pop (node_id self). parent_id root = None" by (rule 7)
  qed
qed

lemma subtree_nodes_scenario_2:
  "subtree_nodes scenario (row 2 (Some 1) ''two'')
     = Some (Inr [row 1 None ''one'', row 2 (Some 1) ''two'', row 4 (Some 2) ''four''])"
proof -
  have "collect_ancestors scenario [] (row 2 (Some 1) ''two'')
          = Some (Inr [row 2 (Some 1) ''two'', row 1 None ''one''])"
    by (simp add: collect_ancestors.simps objects_get_def scenario_def row_def)
  moreover have "get_descendants scenario (node_id (row 2 (Some 1) ''two''))
          = Some [row 4 (Some 2) ''four'']"
    by (simp add: get_descendants_def with_recursive.simps cte_join_def scenario_def row_def)
  ultimately show ?thesis
    by (simp add: subtree_nodes_def) (simp add: scenario_def row_def)
qed

theorem subtree_exact_witness:
  "acyclic_population scenario \<and> parents_present scenario
   \<and> row 2 (Some 1) ''two'' \<in> set scenario
   \<and> subtree_nodes scenario (row 2 (Some 1) ''two'')
       = Some (Inr [row 1 None ''one'', row 2 (Some 1) ''two'', row 4 (Some 2) ''four''])
   \<and> ancestor_path scenario 2 \<union> descendants_of scenario 2
       = {row 1 None ''one'', row 2 (Some 1) ''two'', row 4 (Some 2) ''four''}
   \<and> distinct (map node_id [row 1 None ''one'', row 2 (Some 1) ''two'', row 4 (Some 2) ''four''])"
proof -
  have h3: "row 2 (Some 1) ''two'' \<in> set scenario" by (simp add: scenario_def)
  have k: "node_id (row 2 (Some 1) ''two'') = 2" by (simp add: row_def)
  from subtree_exact [OF acyclic_population_scenario parents_present_scenario h3, of to_global_id]
  obtain rows where "subtree_nodes scenario (row 2 (Some 1) ''two'') = Some (Inr rows)"
    and s: "set rows = ancestor_path scenario 2 \<union> descendants_of scenario 2"
    and d: "distinct (map node_id rows)"
    unfolding k by blast
  then have "rows = [row 1 None ''one'', row 2 (Some 1) ''two'', row 4 (Some 2) ''four'']"
    by (simp add: subtree_nodes_scenario_2)
  with s d have "ancestor_path scenario 2 \<union> descendants_of scenario 2
       = {row 1 None ''one'', row 2 (Some 1) ''two'', row 4 (Some 2) ''four''}"
    and "distinct (map node_id [row 1 None ''one'', row 2 (Some 1) ''two'', row 4 (Some 2) ''four''])"
    by auto
  with acyclic_population_scenario parents_present_scenario h3 subtree_nodes_scenario_2
  show ?thesis by blast
qed


subsection \<open>Scenario C\<close>

text \<open>
  Claim C8. On the population \<open>{1: null, 2: 1, 3: 1, 4: 2}\<close>, with any texts, the subtree of
  node 2 has exactly the nodes 1, 2 and 4. In the flat result the children list of node 1
  is the external id of node 2 alone (node 3 is not in the result) and the children list
  of node 2 is the external id of node 4.
\<close>

theorem scenario_c:
  "subtree_nodes [row 1 None t1, row 2 (Some 1) t2, row 3 (Some 1) t3, row 4 (Some 2) t4]
       (row 2 (Some 1) t2)
     = Some (Inr [row 1 None t1, row 2 (Some 1) t2, row 4 (Some 2) t4])
   \<and> node_id ` set [row 1 None t1, row 2 (Some 1) t2, row 4 (Some 2) t4] = {1, 2, 4}
   \<and> resolve_subtree enc [row 1 None t1, row 2 (Some 1) t2, row 3 (Some 1) t3, row 4 (Some 2) t4]
       (row 2 (Some 1) t2)
     = Some (Inr
        [\<lparr> flat_id = enc ''AnnotationType'' 1, flat_raw_text = t1,
            flat_children = [enc ''AnnotationType'' 2] \<rparr>,
         \<lparr> flat_id = enc ''AnnotationType'' 2, flat_raw_text = t2,
            flat_children = [enc ''AnnotationType'' 4] \<rparr>,
         \<lparr> flat_id = enc ''AnnotationType'' 4, flat_raw_text = t4,
            flat_children = [] \<rparr>])"
proof -
  let ?pop = "[row 1 None t1, row 2 (Some 1) t2, row 3 (Some 1) t3, row 4 (Some 2) t4]"
  have a: "collect_ancestors ?pop [] (row 2 (Some 1) t2)
          = Some (Inr [row 2 (Some 1) t2, row 1 None t1])"
    by (simp add: collect_ancestors.simps objects_get_def row_def)
  have g: "get_descendants ?pop (node_id (row 2 (Some 1) t2)) = Some [row 4 (Some 2) t4]"
    by (simp add: get_descendants_def with_recursive.simps cte_join_def row_def)
  have n: "subtree_nodes ?pop (row 2 (Some 1) t2)
             = Some (Inr [row 1 None t1, row 2 (Some 1) t2, row 4 (Some 2) t4])"
    by (simp add: subtree_nodes_def a g) (simp add: row_def)
  have k: "node_id ` set [row 1 None t1, row 2 (Some 1) t2, row 4 (Some 2) t4] = {1, 2, 4}"
    by (simp add: row_def)
  have f: "build_flat_tree enc [row 1 None t1, row 2 (Some 1) t2, row 4 (Some 2) t4]
     = [\<lparr> flat_id = enc ''AnnotationType'' 1, flat_raw_text = t1,
            flat_children = [enc ''AnnotationType'' 2] \<rparr>,
         \<lparr> flat_id = enc ''AnnotationType'' 2, flat_raw_text = t2,
            flat_children = [enc ''AnnotationType'' 4] \<rparr>,
         \<lparr> flat_id = enc ''AnnotationType'' 4, flat_raw_text = t4,
            flat_children = [] \<rparr>]"
    by (simp add: build_flat_tree_eq children_in_def row_def)
  have r: "resolve_subtree enc ?pop (row 2 (Some 1) t2)
     = Some (Inr (build_flat_tree enc [row 1 None t1, row 2 (Some 1) t2, row 4 (Some 2) t4]))"
    by (simp add: resolve_subtree_def n)
  from n k r show ?thesis unfolding f by (intro conjI)
qed

lemma with_recursive_Nil: "with_recursive pop [] = Some []"
  by (subst with_recursive.simps) simp

lemma build_flat_tree_Nil: "build_flat_tree enc [] = []"
  by (simp add: build_flat_tree_eq)

lemma order_by_id_Nil: "order_by_id [] = []"
  by (simp add: order_by_id_def)

lemma no_child_of_absent:
  assumes "parents_present pop" and "i \<notin> node_id ` set pop"
  shows "filter (\<lambda>n. parent_id n = Some i) pop = []"
proof -
  have "parent_id n \<noteq> Some i" if "n \<in> set pop" for n
  proof
    assume "parent_id n = Some i"
    with assms(1) that have "i \<in> node_id ` set pop"
      unfolding parents_present_def by (metis option.simps(5))
    with assms(2) show False by simp
  qed
  then show ?thesis by (simp add: filter_empty_conv)
qed

lemma no_row_of_absent:
  assumes "i \<notin> node_id ` set pop"
  shows "filter (\<lambda>n. node_id n = i) pop = []"
  using assms by (auto simp: filter_empty_conv)

subsection \<open>A root that is not in the population\<close>

text \<open>
  Claim C2, as amended. The resolvers are methods of a node handle that is already loaded
  and never look the handle's own row up, and the code has no not-found error for it. When
  the key of the handle is absent from a population whose parent references all name a
  row, the descendants resolver returns the empty list, and so do the full tree and the
  subtree resolvers when the handle has no parent reference.
\<close>

theorem absent_root_gives_empty:
  assumes "parents_present pop" and "node_id self \<notin> node_id ` set pop"
  shows "resolve_descendants_tree enc pop self = Some (Inr [])
       \<and> (parent_id self = None \<longrightarrow>
            resolve_full_tree enc pop self = Some (Inr [])
            \<and> resolve_subtree enc pop self = Some (Inr []))"
proof (intro conjI impI)
  have g: "get_descendants pop (node_id self) = Some []"
    by (simp add: get_descendants_def no_child_of_absent [OF assms] with_recursive_Nil)
  then show "resolve_descendants_tree enc pop self = Some (Inr [])"
    by (simp add: resolve_descendants_tree_def descendants_list_def order_by_id_Nil
          build_flat_tree_Nil)
  assume p: "parent_id self = None"
  then have "root_ancestor pop self = Some (Inr self)"
    by (subst root_ancestor.simps) simp
  then show "resolve_full_tree enc pop self = Some (Inr [])"
    by (simp add: resolve_full_tree_def full_tree_nodes_def no_row_of_absent [OF assms(2)]
          with_recursive_Nil order_by_id_Nil build_flat_tree_Nil)
  from p have "collect_ancestors pop [] self = Some (Inr [self])"
    by (subst collect_ancestors.simps) simp
  moreover have "filter (\<lambda>n. node_id n \<in> set (map node_id [self])) pop = []"
    using no_row_of_absent [OF assms(2)] by simp
  ultimately show "resolve_subtree enc pop self = Some (Inr [])"
    by (simp add: resolve_subtree_def subtree_nodes_def g build_flat_tree_Nil)
qed

theorem absent_root_gives_empty_witness:
  "parents_present scenario
   \<and> node_id (row 999 None []) \<notin> node_id ` set scenario
   \<and> parent_id (row 999 None []) = None
   \<and> resolve_descendants_tree to_global_id scenario (row 999 None []) = Some (Inr [])
   \<and> resolve_full_tree to_global_id scenario (row 999 None []) = Some (Inr [])
   \<and> resolve_subtree to_global_id scenario (row 999 None []) = Some (Inr [])"
proof -
  have h2: "node_id (row 999 None []) \<notin> node_id ` set scenario"
    by (simp add: scenario_def row_def)
  have h3: "parent_id (row 999 None []) = None" by (simp add: row_def)
  from absent_root_gives_empty [OF parents_present_scenario h2, of to_global_id] h3
  have "resolve_descendants_tree to_global_id scenario (row 999 None []) = Some (Inr [])
   \<and> resolve_full_tree to_global_id scenario (row 999 None []) = Some (Inr [])
   \<and> resolve_subtree to_global_id scenario (row 999 None []) = Some (Inr [])"
    by blast
  with parents_present_scenario h2 h3 show ?thesis by blast
qed

text \<open>
  Claim C2, as stated, fails: on the scenario population, which has no row with key 999,
  the descendants of a handle with key 999 are the empty list, returned without error.
\<close>

theorem descendants_of_absent_root_counterexample:
  "999 \<notin> node_id ` set scenario
   \<and> resolve_descendants_tree to_global_id scenario (row 999 None []) = Some (Inr [])"
proof
  show "999 \<notin> node_id ` set scenario" by (simp add: scenario_def row_def)
  have "get_descendants scenario 999 = Some []"
    by (simp add: get_descendants_def with_recursive.simps scenario_def row_def)
  then show "resolve_descendants_tree to_global_id scenario (row 999 None []) = Some (Inr [])"
    by (simp add: resolve_descendants_tree_def descendants_list_def order_by_id_def
          build_flat_tree_def id_to_children_def row_def)
qed


lemma resolve_descendants_tree_Inr:
  assumes "resolve_descendants_tree enc pop self = Some (Inr out)"
  shows "\<exists>rows. descendants_list pop self = Some rows \<and> sorted (map node_id rows)
           \<and> out = build_flat_tree enc rows"
proof -
  from assms obtain rows where r: "descendants_list pop self = Some rows"
    and o: "out = build_flat_tree enc rows"
    by (auto simp: resolve_descendants_tree_def)
  from r obtain raw where "rows = order_by_id raw"
    by (auto simp: descendants_list_def)
  then have "sorted (map node_id rows)" by (simp add: sorted_order_by_id)
  with r o show ?thesis by blast
qed

lemma resolve_full_tree_Inr:
  assumes "resolve_full_tree enc pop self = Some (Inr out)"
  shows "\<exists>rows. full_tree_nodes pop self = Some (Inr rows) \<and> sorted (map node_id rows)
           \<and> out = build_flat_tree enc rows"
proof -
  from assms obtain res where f: "full_tree_nodes pop self = Some res"
    and m: "map_sum (\<lambda>e. e) (build_flat_tree enc) res = Inr out"
    by (auto simp: resolve_full_tree_def)
  from m obtain rows where res: "res = Inr rows" and o: "out = build_flat_tree enc rows"
    by (cases res) auto
  from f res obtain raw where "rows = order_by_id raw"
    by (auto simp: full_tree_nodes_def split: option.splits sum.splits)
  then have "sorted (map node_id rows)" by (simp add: sorted_order_by_id)
  with f res o show ?thesis by blast
qed

lemma flat_ids: "map flat_id (build_flat_tree enc rows) = map (\<lambda>n. enc ''AnnotationType'' (node_id n)) rows"
  by (simp add: build_flat_tree_flat_of flat_of_def)

subsection \<open>Ordering of the result\<close>

text \<open>
  Claim C7. In the descendants and the full tree modes the rows handed to the flattener are
  in ascending order of their keys, and the flattener keeps that order: one record per row,
  the record at each position carrying the external id of the row at that position. The
  subtree mode asks for no ordering: its rows come as the table yields them, ancestors
  first, which on the two-row table \<open>[2: 1, 1: null]\<close> is not ascending.
\<close>

theorem traversal_order:
  "(\<forall>out. resolve_descendants_tree enc pop self = Some (Inr out) \<longrightarrow>
      (\<exists>rows. descendants_list pop self = Some rows \<and> sorted (map node_id rows)
         \<and> out = build_flat_tree enc rows \<and> length out = length rows
         \<and> map flat_id out = map (\<lambda>n. enc ''AnnotationType'' (node_id n)) rows))
   \<and> (\<forall>out. resolve_full_tree enc pop self = Some (Inr out) \<longrightarrow>
      (\<exists>rows. full_tree_nodes pop self = Some (Inr rows) \<and> sorted (map node_id rows)
         \<and> out = build_flat_tree enc rows \<and> length out = length rows
         \<and> map flat_id out = map (\<lambda>n. enc ''AnnotationType'' (node_id n)) rows))
   \<and> subtree_nodes [row 2 (Some 1) ''two'', row 1 None ''one''] (row 2 (Some 1) ''two'')
       = Some (Inr [row 2 (Some 1) ''two'', row 1 None ''one''])
   \<and> \<not> sorted (map node_id [row 2 (Some 1) ''two'', row 1 None ''one''])"
proof (intro conjI allI impI)
  fix out assume "resolve_descendants_tree enc pop self = Some (Inr out)"
  then obtain rows where "descendants_list pop self = Some rows" "sorted (map node_id rows)"
    "out = build_flat_tree enc rows"
    using resolve_descendants_tree_Inr by blast
  then show "\<exists>rows. descendants_list pop self = Some rows \<and> sorted (map node_id rows)
         \<and> out = build_flat_tree enc rows \<and> length out = length rows
         \<and> map flat_id out = map (\<lambda>n. enc ''AnnotationType'' (node_id n)) rows"
    by (auto simp: length_build_flat_tree flat_ids)
next
  fix out assume "resolve_full_tree enc pop self = Some (Inr out)"
  then obtain rows where "full_tree_nodes pop self = Some (Inr rows)" "sorted (map node_id rows)"
    "out = build_flat_tree enc rows"
    using resolve_full_tree_Inr by blast
  then show "\<exists>rows. full_tree_nodes pop self = Some (Inr rows) \<and> sorted (map node_id rows)
         \<and> out = build_flat_tree enc rows \<and> length out = length rows
         \<and> map flat_id out = map (\<lambda>n. enc ''AnnotationType'' (node_id n)) rows"
    by (auto simp: length_build_flat_tree flat_ids)
next
  have "collect_ancestors [row 2 (Some 1) ''two'', row 1 None ''one''] [] (row 2 (Some 1) ''two'')
          = Some (Inr [row 2 (Some 1) ''two'', row 1 None ''one''])"
    by (simp add: collect_ancestors.simps objects_get_def row_def)
  moreover have "get_descendants [row 2 (Some 1) ''two'', row 1 None ''one'']
          (node_id (row 2 (Some 1) ''two'')) = Some []"
    by (simp add: get_descendants_def with_recursive.simps cte_join_def row_def)
  ultimately show "subtree_nodes [row 2 (Some 1) ''two'', row 1 None ''one''] (row 2 (Some 1) ''two'')
       = Some (Inr [row 2 (Some 1) ''two'', row 1 None ''one''])"
    by (simp add: subtree_nodes_def)
next
  show "\<not> sorted (map node_id [row 2 (Some 1) ''two'', row 1 None ''one''])"
    by (simp add: row_def)
qed

lemma full_tree_nodes_scenario_1:
  "full_tree_nodes scenario (row 1 None ''one'') = Some (Inr scenario)"
proof -
  have "root_ancestor scenario (row 1 None ''one'') = Some (Inr (row 1 None ''one''))"
    by (simp add: root_ancestor.simps row_def)
  then show ?thesis
    by (simp add: full_tree_nodes_def)
       (simp add: order_by_id_def with_recursive.simps cte_join_def scenario_def row_def)
qed

theorem traversal_order_witness:
  "resolve_descendants_tree to_global_id scenario (row 1 None ''one'')
     = Some (Inr (build_flat_tree to_global_id
         [row 2 (Some 1) ''two'', row 3 (Some 1) ''three'', row 4 (Some 2) ''four'']))
   \<and> resolve_full_tree to_global_id scenario (row 1 None ''one'')
     = Some (Inr (build_flat_tree to_global_id scenario))
   \<and> sorted (map node_id [row 2 (Some 1) ''two'', row 3 (Some 1) ''three'', row 4 (Some 2) ''four''])
   \<and> sorted (map node_id scenario)
   \<and> map flat_id (build_flat_tree to_global_id scenario)
       = map (\<lambda>n. to_global_id ''AnnotationType'' (node_id n)) scenario"
proof -
  let ?self = "row 1 None ''one''"
  let ?d = "[row 2 (Some 1) ''two'', row 3 (Some 1) ''three'', row 4 (Some 2) ''four'']"
  have h1: "resolve_descendants_tree to_global_id scenario ?self
              = Some (Inr (build_flat_tree to_global_id ?d))"
    by (simp add: resolve_descendants_tree_def descendants_list_scenario_1)
  have h2: "resolve_full_tree to_global_id scenario ?self
              = Some (Inr (build_flat_tree to_global_id scenario))"
    by (simp add: resolve_full_tree_def full_tree_nodes_scenario_1)
  note t = traversal_order [of to_global_id scenario ?self]
  from t h1 obtain rows where "descendants_list scenario ?self = Some rows"
    "sorted (map node_id rows)" by blast
  then have s1: "sorted (map node_id ?d)" by (simp add: descendants_list_scenario_1)
  from t h2 obtain rows' where "full_tree_nodes scenario ?self = Some (Inr rows')"
    "sorted (map node_id rows')"
    "map flat_id (build_flat_tree to_global_id scenario)
       = map (\<lambda>n. to_global_id ''AnnotationType'' (node_id n)) rows'" by blast
  then have s2: "sorted (map node_id scenario)"
    and s3: "map flat_id (build_flat_tree to_global_id scenario)
       = map (\<lambda>n. to_global_id ''AnnotationType'' (node_id n)) scenario"
    by (simp_all add: full_tree_nodes_scenario_1)
  from h1 h2 s1 s2 s3 show ?thesis by (intro conjI)
qed

subsection \<open>Round trip of the codec\<close>









end
